theory Spec2Isabelle
  imports Main "HOL-Library.List_Lexorder" "HOL-Library.Char_ord" "HOL-Library.Multiset"
begin

text \<open>
  The task storage and tree engine of TG-Manager: the ID allocator, the state
  functions, the per-user storage and the task manager, each translated from its
  TypeScript source, followed by the properties proved of them.  Promises are run to
  completion one after the other; every thrown error is a value of type \<open>error\<close>.
\<close>

section \<open>Data model (types/cli.ts)\<close>

text \<open>
  \<^verbatim>\<open>ITask\<close> has only optional fields; an absent key is \<open>None\<close>.  Ids are JavaScript
  numbers; the model takes the integers among them.  \<^verbatim>\<open>subtasks\<close> keeps the difference
  between an absent key and an empty array, since the code tests the key's truthiness
  in some places and the array's length in others.
\<close>

datatype task = Task
  (task_id: "int option")
  (task_name: "string option")
  (task_description: "string option")
  (task_subtasks: "task list option")
  (task_timestamp: "string option")
  (task_state: "string option")
  (task_priority: "int option")

record TaskState =
  name :: string
  hexColor :: string
  icon :: string

record StorageFile =
  meta_states :: "TaskState list"
  datas :: "task list"

text \<open>
  \<^verbatim>\<open>Partial<ITask>\<close>, the argument of \<^verbatim>\<open>addTask\<close> and of \<^verbatim>\<open>editTask\<close>: every key of
  \<^verbatim>\<open>ITask\<close> is absent (\<open>None\<close>) or holds a value.  The value of a \<^verbatim>\<open>subtasks\<close> key is a
  finite forest, as a JSON value is.  A node that receives it holds the argument's
  array itself, not a copy; the loop of \<open>editTask\<close> below keeps track of the nodes
  that hold it.
\<close>

record PartialTask =
  p_id :: "int option"
  p_name :: "string option"
  p_description :: "string option"
  p_subtasks :: "task list option"
  p_timestamp :: "string option"
  p_state :: "string option"
  p_priority :: "int option"

definition noFields :: PartialTask where
  "noFields = \<lparr>p_id = None, p_name = None, p_description = None, p_subtasks = None,
                p_timestamp = None, p_state = None, p_priority = None\<rparr>"

definition DEFAULT_TASK_STATES :: "TaskState list" where
  "DEFAULT_TASK_STATES =
     [\<lparr>name = ''todo'', hexColor = ''#ff8f00'', icon = ''[ ]''\<rparr>,
      \<lparr>name = ''currently_doing'', hexColor = ''#ab47bc'', icon = ''*''\<rparr>,
      \<lparr>name = ''done'', hexColor = ''#66bb6a'', icon = ''v''\<rparr>]"

definition DEFAULT_STORAGE_DATA :: StorageFile where
  "DEFAULT_STORAGE_DATA = \<lparr>meta_states = DEFAULT_TASK_STATES, datas = []\<rparr>"

text \<open>
  The errors thrown: the four classes of \<^verbatim>\<open>TaskManager.ts\<close>, the error of the state
  functions, and those of the runtime and of the storage: \<open>TypeError\<close> (a property of
  \<^verbatim>\<open>undefined\<close> is read), \<open>LoadError\<close> (\<^verbatim>\<open>Failed to load tasks\<close>), \<open>SaveError\<close>
  (\<^verbatim>\<open>Failed to save tasks\<close>, thrown when \<^verbatim>\<open>JSON.stringify\<close> meets a cyclic structure) and
  \<open>RangeError\<close> (the call stack is used up by a recursion that does not end).
\<close>

datatype error =
    TaskNotFoundError int
  | TaskStateUnknownError int string
  | NoFurtherStateError int
  | TaskIdDuplicatedError int
  | UnknownStateError "string option"
  | TypeError
  | LoadError
  | RangeError
  | SaveError

section \<open>utils/idGenerator.ts\<close>

text \<open>The \<^verbatim>\<open>while (existingIds.includes(id)) id++\<close> loop, started at \<open>i\<close>.\<close>

function generateTaskId_scan :: "int list \<Rightarrow> int \<Rightarrow> int" where
  "generateTaskId_scan existingIds i =
     (if i \<in> set existingIds then generateTaskId_scan existingIds (i + 1) else i)"
  by pat_completeness auto
termination
proof (relation "measure (\<lambda>(xs, i). card {x \<in> set xs. i \<le> x})")
  show "wf (measure (\<lambda>(xs, i). card {x \<in> set xs. i \<le> x}))"
    by simp
next
  fix existingIds :: "int list" and i :: int
  assume mem: "i \<in> set existingIds"
  have "i \<in> {x \<in> set existingIds. i \<le> x}"
    using mem by simp
  moreover have "i \<notin> {x \<in> set existingIds. i + 1 \<le> x}"
    by simp
  moreover have "{x \<in> set existingIds. i + 1 \<le> x} \<subseteq> {x \<in> set existingIds. i \<le> x}"
    by auto
  ultimately have "{x \<in> set existingIds. i + 1 \<le> x} \<subset> {x \<in> set existingIds. i \<le> x}"
    by blast
  then have "card {x \<in> set existingIds. i + 1 \<le> x} < card {x \<in> set existingIds. i \<le> x}"
    by (intro psubset_card_mono) simp_all
  then show "((existingIds, i + 1), (existingIds, i))
               \<in> measure (\<lambda>(xs, i). card {x \<in> set xs. i \<le> x})"
    by simp
qed

declare generateTaskId_scan.simps [simp del]

definition generateTaskId :: "int list \<Rightarrow> int" where
  "generateTaskId existingIds =
     (if length existingIds = 0 then 0
      else let maxInArray = Max (set existingIds) in
        if maxInArray = int (length existingIds) - 1 then int (length existingIds)
        else generateTaskId_scan existingIds 0)"

lemma size_subtasks:
  "task_subtasks t = Some ss \<Longrightarrow> size_list size ss < size t"
  by (cases t) simp

fun extractFromTask :: "task \<Rightarrow> int list" where
  "extractFromTask (Task i n d sub tm st p) =
     (case i of Some k \<Rightarrow> [k] | None \<Rightarrow> []) @
     (case sub of
        Some ss \<Rightarrow> (if length ss > 0 then concat (map extractFromTask ss) else [])
      | None \<Rightarrow> [])"

definition extractAllIds :: "task list \<Rightarrow> int list" where
  "extractAllIds tasks = concat (map extractFromTask tasks)"

definition validateUniqueId :: "int \<Rightarrow> int list \<Rightarrow> bool" where
  "validateUniqueId i existingIds = (i \<notin> set existingIds)"

section \<open>utils/stateManager.ts\<close>

text \<open>\<^verbatim>\<open>findIndex\<close>: the first position whose element satisfies the test, if any.\<close>

fun findIndex :: "('a \<Rightarrow> bool) \<Rightarrow> 'a list \<Rightarrow> nat option" where
  "findIndex P [] = None"
| "findIndex P (x # xs) =
     (if P x then Some 0 else map_option Suc (findIndex P xs))"

text \<open>
  \<^verbatim>\<open>getNextState\<close> returns \<^verbatim>\<open>string | null\<close> or throws a plain \<^verbatim>\<open>Error\<close>; the
  current state is \<^verbatim>\<open>task.state!\<close>, which may be undefined.
\<close>

definition getNextState :: "string option \<Rightarrow> TaskState list \<Rightarrow> error + string option" where
  "getNextState currentState availableStates =
     (case findIndex (\<lambda>s. Some (name s) = currentState) availableStates of
        None \<Rightarrow> Inl (UnknownStateError currentState)
      | Some currentIndex \<Rightarrow>
          if int currentIndex = int (length availableStates) - 1 then Inr None
          else Inr (Some (name (availableStates ! (currentIndex + 1)))))"

definition getFinalState :: "TaskState list \<Rightarrow> error + string" where
  "getFinalState availableStates =
     (if availableStates = [] then Inl TypeError else Inr (name (last availableStates)))"

definition validateState :: "string \<Rightarrow> TaskState list \<Rightarrow> bool" where
  "validateState st availableStates = (\<exists>s \<in> set availableStates. name s = st)"

definition getDefaultState :: "TaskState list \<Rightarrow> error + string" where
  "getDefaultState availableStates =
     (case availableStates of [] \<Rightarrow> Inl TypeError | s # _ \<Rightarrow> Inr (name s))"

section \<open>core/UserStorage: the files of one process\<close>

text \<open>
  What \<^verbatim>\<open>JSON.parse\<close> of a data file can give, as far as \<^verbatim>\<open>loadStorage\<close> looks: a
  text that does not parse to an object, or an object whose \<^verbatim>\<open>meta\<close> is falsy
  (\<open>None\<close>) or has some \<^verbatim>\<open>states\<close>, and whose \<^verbatim>\<open>datas\<close> is falsy (\<open>Absent\<close>), another
  value, or an array.
\<close>

datatype 'a jsonField = Absent | NotArray | IsArray 'a

datatype fileContent =
    Unparsable
  | Parsed (json_meta: "TaskState list jsonField option") (json_datas: "task list jsonField")

text \<open>
  The state of one process: the data file \<^verbatim>\<open>users/<id>/tasks.json\<close> of every user
  (\<open>None\<close> when the file is absent), the listing of every user's \<^verbatim>\<open>.backups\<close> directory,
  and the current value of the module-level object \<^verbatim>\<open>DEFAULT_STORAGE_DATA\<close>.  That
  object is in the state because \<^verbatim>\<open>loadStorage\<close> returns the object itself, not a
  copy, and the task manager pushes into the arrays of whatever \<^verbatim>\<open>loadStorage\<close>
  returned.  File system calls other than reading a missing file are taken to succeed.
\<close>

record world =
  tasksFile :: "string \<Rightarrow> fileContent option"
  backupDir :: "string \<Rightarrow> (string \<times> fileContent) list"
  defaultData :: StorageFile

definition freshWorld :: world where
  "freshWorld = \<lparr>tasksFile = (\<lambda>u. None), backupDir = (\<lambda>u. []),
                  defaultData = DEFAULT_STORAGE_DATA\<rparr>"

text \<open>\<^verbatim>\<open>JSON.stringify(data)\<close> followed by a later \<^verbatim>\<open>JSON.parse\<close>.\<close>

definition toJson :: "StorageFile \<Rightarrow> fileContent" where
  "toJson d = Parsed (Some (IsArray (meta_states d))) (IsArray (datas d))"

text \<open>The shape test of \<^verbatim>\<open>loadStorage\<close>; \<open>None\<close> is the thrown error.\<close>

definition parseStorage :: "fileContent \<Rightarrow> StorageFile option" where
  "parseStorage c =
     (case c of
        Unparsable \<Rightarrow> None
      | Parsed m ds \<Rightarrow>
          (case m of
             None \<Rightarrow> None
           | Some sf \<Rightarrow>
               (case ds of
                  Absent \<Rightarrow> None
                | NotArray \<Rightarrow> None
                | IsArray tasks \<Rightarrow>
                    (case sf of
                       IsArray sts \<Rightarrow> Some \<lparr>meta_states = sts, datas = tasks\<rparr>
                     | _ \<Rightarrow> None))))"

definition initialize :: "string \<Rightarrow> world \<Rightarrow> world" where
  "initialize u w =
     (case tasksFile w u of
        Some _ \<Rightarrow> w
      | None \<Rightarrow> w\<lparr>tasksFile := (tasksFile w)(u := Some (toJson (defaultData w)))\<rparr>)"

text \<open>
  \<open>loadStorage\<close> returns the loaded data and whether it is the shared default object
  (\<open>True\<close>) or a freshly parsed one.
\<close>

definition loadStorage :: "string \<Rightarrow> world \<Rightarrow> (error + StorageFile \<times> bool) \<times> world" where
  "loadStorage u w =
     (case tasksFile w u of
        None \<Rightarrow> (Inr (defaultData w, True), initialize u w)
      | Some c \<Rightarrow>
          (case parseStorage c of
             None \<Rightarrow> (Inl LoadError, w)
           | Some d \<Rightarrow> (Inr (d, False), w)))"

definition saveStorage :: "string \<Rightarrow> StorageFile \<Rightarrow> world \<Rightarrow> world" where
  "saveStorage u d w = w\<lparr>tasksFile := (tasksFile w)(u := Some (toJson d))\<rparr>"

text \<open>
  A change made in memory to the object \<^verbatim>\<open>loadStorage\<close> returned is a change of
  \<^verbatim>\<open>DEFAULT_STORAGE_DATA\<close> when that is the object.
\<close>

definition mutated :: "bool \<Rightarrow> StorageFile \<Rightarrow> world \<Rightarrow> world" where
  "mutated shared d w = (if shared then w\<lparr>defaultData := d\<rparr> else w)"

definition writeFile :: "string \<Rightarrow> fileContent \<Rightarrow> (string \<times> fileContent) list
    \<Rightarrow> (string \<times> fileContent) list" where
  "writeFile f c dir = (f, c) # filter (\<lambda>e. fst e \<noteq> f) dir"

definition unlink :: "string \<Rightarrow> (string \<times> fileContent) list \<Rightarrow> (string \<times> fileContent) list" where
  "unlink f dir = filter (\<lambda>e. fst e \<noteq> f) dir"

definition startsWith :: "string \<Rightarrow> string \<Rightarrow> bool" where
  "startsWith p s = (take (length p) s = p)"

definition endsWith :: "string \<Rightarrow> string \<Rightarrow> bool" where
  "endsWith p s = (length p \<le> length s \<and> drop (length s - length p) s = p)"

text \<open>
  \<open>createBackup\<close>; \<open>stamp\<close> is
  \<^verbatim>\<open>new Date().toISOString().replace(/[:.]/g, '-')\<close>.  It returns the backup's name.
\<close>

definition createBackup :: "string \<Rightarrow> string \<Rightarrow> world \<Rightarrow> string \<times> world" where
  "createBackup u stamp w =
     (let backupFile = ''tasks-'' @ stamp @ ''.json'';
          content = (case tasksFile w u of
                       Some c \<Rightarrow> c
                     | None \<Rightarrow> toJson (defaultData w))
      in (backupFile, w\<lparr>backupDir := (backupDir w)(u := writeFile backupFile content (backupDir w u))\<rparr>))"

definition listBackups :: "string \<Rightarrow> world \<Rightarrow> string list" where
  "listBackups u w =
     rev (sort (filter (\<lambda>f. startsWith ''tasks-'' f \<and> endsWith ''.json'' f)
                       (map fst (backupDir w u))))"

definition cleanupBackups :: "nat \<Rightarrow> string \<Rightarrow> world \<Rightarrow> world" where
  "cleanupBackups keepCount u w =
     (let backups = listBackups u w in
      if length backups > keepCount
      then w\<lparr>backupDir := (backupDir w)(u := fold unlink (drop keepCount backups) (backupDir w u))\<rparr>
      else w)"

section \<open>core/TaskManager.ts\<close>

subsection \<open>Private helpers\<close>

function findTaskById :: "int \<Rightarrow> task list \<Rightarrow> task option" where
  "findTaskById i [] = None"
| "findTaskById i (t # ts) =
     (if task_id t = Some i then Some t
      else (case task_subtasks t of
              Some ss \<Rightarrow> (case findTaskById i ss of
                            Some r \<Rightarrow> Some r
                          | None \<Rightarrow> findTaskById i ts)
            | None \<Rightarrow> findTaskById i ts))"
  by pat_completeness auto
termination
  by (relation "measure (\<lambda>(i, ts). size_list size ts)") (auto dest: size_subtasks)

definition setSubtasks :: "task list option \<Rightarrow> task \<Rightarrow> task" where
  "setSubtasks ss t =
     Task (task_id t) (task_name t) (task_description t) ss
          (task_timestamp t) (task_state t) (task_priority t)"

text \<open>
  The callers of \<open>findTaskById\<close> change the node it returned in place.
  \<open>modifyTaskById i f tasks\<close> is the forest after that: \<open>f\<close> applied to the node that
  \<open>findTaskById i tasks\<close> returns (same traversal), \<open>None\<close> where it throws.
\<close>

function modifyTaskById :: "int \<Rightarrow> (task \<Rightarrow> task) \<Rightarrow> task list \<Rightarrow> task list option" where
  "modifyTaskById i f [] = None"
| "modifyTaskById i f (t # ts) =
     (if task_id t = Some i then Some (f t # ts)
      else (case task_subtasks t of
              Some ss \<Rightarrow> (case modifyTaskById i f ss of
                            Some ss' \<Rightarrow> Some (setSubtasks (Some ss') t # ts)
                          | None \<Rightarrow> map_option ((#) t) (modifyTaskById i f ts))
            | None \<Rightarrow> map_option ((#) t) (modifyTaskById i f ts)))"
  by pat_completeness auto
termination
  by (relation "measure (\<lambda>(i, f, ts). size_list size ts)") (auto dest: size_subtasks)

text \<open>
  \<^verbatim>\<open>Object.assign(task, updates)\<close>: every key present in \<open>updates\<close> overwrites, the
  \<^verbatim>\<open>subtasks\<close> key as the others.
\<close>

definition objectAssign :: "task \<Rightarrow> PartialTask \<Rightarrow> task" where
  "objectAssign t u =
     Task (case p_id u of Some v \<Rightarrow> Some v | None \<Rightarrow> task_id t)
          (case p_name u of Some v \<Rightarrow> Some v | None \<Rightarrow> task_name t)
          (case p_description u of Some v \<Rightarrow> Some v | None \<Rightarrow> task_description t)
          (case p_subtasks u of Some v \<Rightarrow> Some v | None \<Rightarrow> task_subtasks t)
          (case p_timestamp u of Some v \<Rightarrow> Some v | None \<Rightarrow> task_timestamp t)
          (case p_state u of Some v \<Rightarrow> Some v | None \<Rightarrow> task_state t)
          (case p_priority u of Some v \<Rightarrow> Some v | None \<Rightarrow> task_priority t)"

text \<open>
  \<open>applyUpdatesRecursive\<close> merges and then visits \<^verbatim>\<open>task.subtasks\<close> as the merge left it:
  the node's own children when the updates have no \<^verbatim>\<open>subtasks\<close> key, the array of the
  updates otherwise.  Every node of that array receives the same array as its
  children, so with a non-empty array the recursion visits the array's first node
  again and again and never returns: \<open>recursionUnbounded\<close>.  With an empty array
  \<^verbatim>\<open>forEach\<close> visits nothing.
\<close>

definition recursionUnbounded :: "PartialTask \<Rightarrow> bool" where
  "recursionUnbounded u = (case p_subtasks u of Some (a # as) \<Rightarrow> True | _ \<Rightarrow> False)"

text \<open>The result of \<open>applyUpdatesRecursive\<close> where it returns (\<open>\<not> recursionUnbounded u\<close>).\<close>

fun applyUpdatesRecursive :: "PartialTask \<Rightarrow> task \<Rightarrow> task" where
  "applyUpdatesRecursive u (Task i n d sub tm st p) =
     (case p_subtasks u of
        Some arr \<Rightarrow> objectAssign (Task i n d sub tm st p) u
      | None \<Rightarrow> setSubtasks (map_option (map (applyUpdatesRecursive u)) sub)
                            (objectAssign (Task i n d sub tm st p) u))"

text \<open>\<^verbatim>\<open>splice(index, 1)\<close>.\<close>

definition splice1 :: "nat \<Rightarrow> 'a list \<Rightarrow> 'a list" where
  "splice1 k xs = take k xs @ drop (Suc k) xs"

text \<open>\<open>removeFromSubtasks\<close>: \<open>None\<close> is \<^verbatim>\<open>false\<close>, \<open>Some\<close> the forest after the splice.\<close>

function removeFromSubtasks :: "task list \<Rightarrow> int \<Rightarrow> task list option" where
  "removeFromSubtasks [] targetId = None"
| "removeFromSubtasks (t # ts) targetId =
     (case task_subtasks t of
        None \<Rightarrow> map_option ((#) t) (removeFromSubtasks ts targetId)
      | Some ss \<Rightarrow>
          (case findIndex (\<lambda>subtask. task_id subtask = Some targetId) ss of
             Some k \<Rightarrow> Some (setSubtasks (Some (splice1 k ss)) t # ts)
           | None \<Rightarrow>
               (case removeFromSubtasks ss targetId of
                  Some ss' \<Rightarrow> Some (setSubtasks (Some ss') t # ts)
                | None \<Rightarrow> map_option ((#) t) (removeFromSubtasks ts targetId))))"
  by pat_completeness auto
termination
  by (relation "measure (\<lambda>(ts, i). size_list size ts)") (auto dest: size_subtasks)

text \<open>\<^verbatim>\<open>if (!parent.subtasks) parent.subtasks = []; parent.subtasks.push(task)\<close>.\<close>

definition pushSubtask :: "task \<Rightarrow> task \<Rightarrow> task" where
  "pushSubtask child parent =
     setSubtasks (Some ((case task_subtasks parent of None \<Rightarrow> [] | Some ss \<Rightarrow> ss) @ [child]))
                 parent"

subsection \<open>addTask\<close>

text \<open>
  \<open>now\<close> is \<^verbatim>\<open>generateTimestamp()\<close>.  The literal lists \<^verbatim>\<open>id\<close>, \<^verbatim>\<open>name\<close>, \<^verbatim>\<open>state\<close> and
  \<^verbatim>\<open>timestamp\<close> and then spreads \<^verbatim>\<open>...taskData\<close> over them.
\<close>

text \<open>
  \<^verbatim>\<open>taskData.id && !allIds.includes(taskData.id) ? taskData.id : generateTaskId(allIds)\<close>;
  the number 0 is falsy.
\<close>

definition newTaskId :: "PartialTask \<Rightarrow> int list \<Rightarrow> int" where
  "newTaskId taskData allIds =
     (case p_id taskData of
        Some k \<Rightarrow> if k \<noteq> 0 \<and> k \<notin> set allIds then k else generateTaskId allIds
      | None \<Rightarrow> generateTaskId allIds)"

text \<open>\<^verbatim>\<open>taskData.state || getDefaultState(storageData.meta.states)\<close>.\<close>

definition newTaskState :: "PartialTask \<Rightarrow> TaskState list \<Rightarrow> error + string" where
  "newTaskState taskData sts =
     (case p_state taskData of
        Some s \<Rightarrow> if s \<noteq> [] then Inr s else getDefaultState sts
      | None \<Rightarrow> getDefaultState sts)"

text \<open>
  The object literal
  \<^verbatim>\<open>{ id, name: taskData.name || 'Untitled Task', state: ..., timestamp: ..., ...taskData }\<close>:
  the keys of \<open>taskData\<close> come last and overwrite the four listed before them.
\<close>

definition newTask :: "int \<Rightarrow> string \<Rightarrow> string \<Rightarrow> PartialTask \<Rightarrow> task" where
  "newTask newId st now taskData =
     objectAssign
       (Task (Some newId)
             (Some (case p_name taskData of
                      Some n \<Rightarrow> if n \<noteq> [] then n else ''Untitled Task''
                    | None \<Rightarrow> ''Untitled Task''))
             None None (Some now) (Some st) None)
       taskData"

definition addTask ::
  "string \<Rightarrow> PartialTask \<Rightarrow> int option \<Rightarrow> string \<Rightarrow> world \<Rightarrow> (error + int) \<times> world" where
  "addTask u taskData parentId now w =
     (case loadStorage u w of
        (Inl e, w1) \<Rightarrow> (Inl e, w1)
      | (Inr (storageData, shared), w1) \<Rightarrow>
          let allIds = extractAllIds (datas storageData);
              newId = newTaskId taskData allIds
          in (case newTaskState taskData (meta_states storageData) of
                Inl e \<Rightarrow> (Inl e, w1)
              | Inr st \<Rightarrow>
                  let task = newTask newId st now taskData;
                      taskState = (case task_state task of Some s \<Rightarrow> s | None \<Rightarrow> [])
                  in if \<not> validateState taskState (meta_states storageData)
                     then (Inl (TaskStateUnknownError newId taskState), w1)
                     else
                       (case parentId of
                          Some pid \<Rightarrow>
                            (case modifyTaskById pid (pushSubtask task) (datas storageData) of
                               None \<Rightarrow> (Inl (TaskNotFoundError pid), w1)
                             | Some ds \<Rightarrow>
                                 let d = storageData\<lparr>datas := ds\<rparr>
                                 in (Inr newId, saveStorage u d (mutated shared d w1)))
                        | None \<Rightarrow>
                            let d = storageData\<lparr>datas := datas storageData @ [task]\<rparr>
                            in (Inr newId, saveStorage u d (mutated shared d w1)))))"

subsection \<open>editTask\<close>

text \<open>The \<^verbatim>\<open>if (recursive && task.subtasks) ... else ...\<close> of the loop body.\<close>

definition applyUpdates :: "bool \<Rightarrow> PartialTask \<Rightarrow> task \<Rightarrow> task" where
  "applyUpdates recursive updates task =
     (if recursive \<and> task_subtasks task \<noteq> None
      then applyUpdatesRecursive updates task
      else objectAssign task updates)"

text \<open>
  \<^verbatim>\<open>if (updates.state && !validateState(updates.state, states)) throw ...\<close>: the
  error thrown, if any.  An empty string is falsy.
\<close>

definition checkState :: "int \<Rightarrow> PartialTask \<Rightarrow> TaskState list \<Rightarrow> error option" where
  "checkState taskId updates sts =
     (case p_state updates of
        Some s \<Rightarrow> if s \<noteq> [] \<and> \<not> validateState s sts
                  then Some (TaskStateUnknownError taskId s) else None
      | None \<Rightarrow> None)"

text \<open>
  A \<^verbatim>\<open>subtasks\<close> key makes every node merged in one call hold the same array.  As long
  as no node inside that array is merged, the array is never changed and each holder
  has the array's value as its children.  The loop records where the holders are:
  \<open>findPath\<close> is the position (the indices from the top level down) of the node that
  \<open>findTaskById\<close> returns, and \<open>held\<close> the positions of the holders still in the forest.
\<close>

fun bump :: "nat list \<Rightarrow> nat list" where
  "bump [] = []"
| "bump (k # p) = Suc k # p"

function findPath :: "int \<Rightarrow> task list \<Rightarrow> nat list option" where
  "findPath i [] = None"
| "findPath i (t # ts) =
     (if task_id t = Some i then Some [0]
      else (case task_subtasks t of
              Some ss \<Rightarrow> (case findPath i ss of
                            Some p \<Rightarrow> Some (0 # p)
                          | None \<Rightarrow> map_option bump (findPath i ts))
            | None \<Rightarrow> map_option bump (findPath i ts)))"
  by pat_completeness auto
termination
  by (relation "measure (\<lambda>(i, ts). size_list size ts)") (auto dest: size_subtasks)

definition below :: "nat list \<Rightarrow> nat list \<Rightarrow> bool" where
  "below q p \<longleftrightarrow> length q < length p \<and> take (length q) p = q"

text \<open>
  What stops the merge of the updates into the node found, if anything.  With a
  non-empty \<^verbatim>\<open>subtasks\<close> array in the updates: a recursive merge into a node that has a
  \<^verbatim>\<open>subtasks\<close> key never returns; the runtime ends it with a \<^verbatim>\<open>RangeError\<close> when the call
  stack is used up.  A merge into a node that lies inside the array (below a holder)
  makes the array contain itself.  The forest in memory is then cyclic for the rest of
  the call, every later merge keeps it so, and \<^verbatim>\<open>JSON.stringify\<close> in \<open>saveStorage\<close> throws
  on it: the call cannot succeed and writes nothing.  The model ends the loop there
  with \<open>SaveError\<close>, which is what the code does when the id is the last of the batch.
\<close>

definition mergeFailure ::
  "bool \<Rightarrow> PartialTask \<Rightarrow> nat list list \<Rightarrow> int \<Rightarrow> task list \<Rightarrow> task \<Rightarrow> error option" where
  "mergeFailure recursive updates held taskId tasks task =
     (if \<not> recursionUnbounded updates then None
      else if recursive \<and> task_subtasks task \<noteq> None then Some RangeError
      else (case findPath taskId tasks of
              None \<Rightarrow> None
            | Some p \<Rightarrow> if list_ex (\<lambda>q. below q p) held then Some SaveError else None))"

text \<open>
  The holders after a merge into the node at \<open>findPath taskId tasks\<close>: that node, and
  the earlier holders except those that were among its descendants.
\<close>

definition holders :: "PartialTask \<Rightarrow> nat list list \<Rightarrow> int \<Rightarrow> task list \<Rightarrow> nat list list" where
  "holders updates held taskId tasks =
     (case (p_subtasks updates, findPath taskId tasks) of
        (Some arr, Some p) \<Rightarrow> p # filter (\<lambda>q. \<not> below p q) held
      | _ \<Rightarrow> held)"

text \<open>
  The loop over \<open>taskIds\<close> on the loaded forest.  It returns the forest as the loop left
  it in memory, with the error thrown, if any.
\<close>

fun editTask_loop ::
  "TaskState list \<Rightarrow> PartialTask \<Rightarrow> bool \<Rightarrow> nat list list \<Rightarrow> int list \<Rightarrow> task list \<Rightarrow>
     error option \<times> task list" where
  "editTask_loop sts updates recursive held [] tasks = (None, tasks)"
| "editTask_loop sts updates recursive held (taskId # rest) tasks =
     (case findTaskById taskId tasks of
        None \<Rightarrow> (Some (TaskNotFoundError taskId), tasks)
      | Some task \<Rightarrow>
          (case checkState taskId updates sts of
             Some e \<Rightarrow> (Some e, tasks)
           | None \<Rightarrow>
               (case mergeFailure recursive updates held taskId tasks task of
                  Some e \<Rightarrow> (Some e, tasks)
                | None \<Rightarrow>
                    (case modifyTaskById taskId (applyUpdates recursive updates) tasks of
                       None \<Rightarrow> (Some (TaskNotFoundError taskId), tasks)
                     | Some tasks' \<Rightarrow>
                         editTask_loop sts updates recursive
                           (holders updates held taskId tasks) rest tasks'))))"

text \<open>
  \<open>editTask\<close> saves only after the loop.  Where the loaded object is the default object
  of the process (no data file), the forest the loop left in memory stays in that
  object; an array merged from a \<^verbatim>\<open>subtasks\<close> key is kept there by value, and after a
  merge that never returns or makes the array contain itself the forest before that
  merge stands for the object.
\<close>

definition editTask ::
  "string \<Rightarrow> int list \<Rightarrow> PartialTask \<Rightarrow> bool \<Rightarrow> world \<Rightarrow> (error + unit) \<times> world" where
  "editTask u taskIds updates recursive w =
     (case loadStorage u w of
        (Inl e, w1) \<Rightarrow> (Inl e, w1)
      | (Inr (storageData, shared), w1) \<Rightarrow>
          (case editTask_loop (meta_states storageData) updates recursive [] taskIds
                  (datas storageData) of
             (Some e, tasks) \<Rightarrow> (Inl e, mutated shared (storageData\<lparr>datas := tasks\<rparr>) w1)
           | (None, tasks) \<Rightarrow>
               let d = storageData\<lparr>datas := tasks\<rparr>
               in (Inr (), saveStorage u d (mutated shared d w1))))"

subsection \<open>deleteTask\<close>

text \<open>
  The removal of one id in the loop body: from the top level if a top-level task has
  the id, else by \<open>removeFromSubtasks\<close>; \<open>None\<close> is \<^verbatim>\<open>found === false\<close>.
\<close>

definition removeTask :: "int \<Rightarrow> task list \<Rightarrow> task list option" where
  "removeTask taskId tasks =
     (case findIndex (\<lambda>task. task_id task = Some taskId) tasks of
        Some topLevelIndex \<Rightarrow> Some (splice1 topLevelIndex tasks)
      | None \<Rightarrow> removeFromSubtasks tasks taskId)"

fun deleteTask_loop :: "int list \<Rightarrow> task list \<Rightarrow> error option \<times> task list" where
  "deleteTask_loop [] tasks = (None, tasks)"
| "deleteTask_loop (taskId # rest) tasks =
     (case removeTask taskId tasks of
        None \<Rightarrow> (Some (TaskNotFoundError taskId), tasks)
      | Some tasks' \<Rightarrow> deleteTask_loop rest tasks')"

definition deleteTask :: "string \<Rightarrow> int list \<Rightarrow> world \<Rightarrow> (error + unit) \<times> world" where
  "deleteTask u taskIds w =
     (case loadStorage u w of
        (Inl e, w1) \<Rightarrow> (Inl e, w1)
      | (Inr (storageData, shared), w1) \<Rightarrow>
          (case deleteTask_loop taskIds (datas storageData) of
             (Some e, tasks) \<Rightarrow> (Inl e, mutated shared (storageData\<lparr>datas := tasks\<rparr>) w1)
           | (None, tasks) \<Rightarrow>
               let d = storageData\<lparr>datas := tasks\<rparr>
               in (Inr (), saveStorage u d (mutated shared d w1))))"

subsection \<open>incrementTask and completeTask\<close>

text \<open>
  The loop reads every task from the forest loaded before the loop; each
  \<open>editTask\<close> call loads and saves on its own.
\<close>

fun incrementTask_loop ::
  "string \<Rightarrow> StorageFile \<Rightarrow> bool \<Rightarrow> int list \<Rightarrow> world \<Rightarrow> (error + unit) \<times> world" where
  "incrementTask_loop u storageData recursive [] w = (Inr (), w)"
| "incrementTask_loop u storageData recursive (taskId # rest) w =
     (case findTaskById taskId (datas storageData) of
        None \<Rightarrow> (Inl (TaskNotFoundError taskId), w)
      | Some task \<Rightarrow>
          (case getNextState (task_state task) (meta_states storageData) of
             Inl e \<Rightarrow> (Inl e, w)
           | Inr nextState \<Rightarrow>
               (case nextState of
                  None \<Rightarrow> (Inl (NoFurtherStateError taskId), w)
                | Some s \<Rightarrow>
                    if s = [] then (Inl (NoFurtherStateError taskId), w)
                    else (case editTask u [taskId] (noFields\<lparr>p_state := Some s\<rparr>) recursive w of
                            (Inl e, w1) \<Rightarrow> (Inl e, w1)
                          | (Inr _, w1) \<Rightarrow> incrementTask_loop u storageData recursive rest w1))))"

definition incrementTask :: "string \<Rightarrow> int list \<Rightarrow> bool \<Rightarrow> world \<Rightarrow> (error + unit) \<times> world" where
  "incrementTask u taskIds recursive w =
     (case loadStorage u w of
        (Inl e, w1) \<Rightarrow> (Inl e, w1)
      | (Inr (storageData, shared), w1) \<Rightarrow> incrementTask_loop u storageData recursive taskIds w1)"

definition completeTask :: "string \<Rightarrow> int list \<Rightarrow> bool \<Rightarrow> world \<Rightarrow> (error + unit) \<times> world" where
  "completeTask u taskIds recursive w =
     (case loadStorage u w of
        (Inl e, w1) \<Rightarrow> (Inl e, w1)
      | (Inr (storageData, shared), w1) \<Rightarrow>
          (case getFinalState (meta_states storageData) of
             Inl e \<Rightarrow> (Inl e, w1)
           | Inr finalState \<Rightarrow>
               editTask u taskIds (noFields\<lparr>p_state := Some finalState\<rparr>) recursive w1))"

subsection \<open>moveTask\<close>

text \<open>
  The loop takes each task's copy from the forest loaded before the loop
  (\<open>stale\<close>), calls \<open>deleteTask\<close>, loads again, resolves the new parent in the loaded
  forest and saves.
\<close>

fun moveTask_loop ::
  "string \<Rightarrow> int \<Rightarrow> task list \<Rightarrow> int list \<Rightarrow> world \<Rightarrow> (error + unit) \<times> world" where
  "moveTask_loop u newParentId stale [] w = (Inr (), w)"
| "moveTask_loop u newParentId stale (taskId # rest) w =
     (case findTaskById taskId stale of
        None \<Rightarrow> (Inl (TaskNotFoundError taskId), w)
      | Some taskCopy \<Rightarrow>
          (case deleteTask u [taskId] w of
             (Inl e, w1) \<Rightarrow> (Inl e, w1)
           | (Inr _, w1) \<Rightarrow>
               (case loadStorage u w1 of
                  (Inl e, w2) \<Rightarrow> (Inl e, w2)
                | (Inr (updatedStorage, shared), w2) \<Rightarrow>
                    (case modifyTaskById newParentId (pushSubtask taskCopy)
                            (datas updatedStorage) of
                       None \<Rightarrow> (Inl (TaskNotFoundError newParentId), w2)
                     | Some ds \<Rightarrow>
                         let d = updatedStorage\<lparr>datas := ds\<rparr>
                         in moveTask_loop u newParentId stale rest
                              (saveStorage u d (mutated shared d w2))))))"

definition moveTask :: "string \<Rightarrow> int list \<Rightarrow> int \<Rightarrow> world \<Rightarrow> (error + unit) \<times> world" where
  "moveTask u taskIds newParentId w =
     (case loadStorage u w of
        (Inl e, w1) \<Rightarrow> (Inl e, w1)
      | (Inr (storageData, shared), w1) \<Rightarrow>
          (case findTaskById newParentId (datas storageData) of
             None \<Rightarrow> (Inl (TaskNotFoundError newParentId), w1)
           | Some _ \<Rightarrow> moveTask_loop u newParentId (datas storageData) taskIds w1))"

definition getTask :: "string \<Rightarrow> int \<Rightarrow> world \<Rightarrow> (error + task) \<times> world" where
  "getTask u taskId w =
     (case loadStorage u w of
        (Inl e, w1) \<Rightarrow> (Inl e, w1)
      | (Inr (storageData, shared), w1) \<Rightarrow>
          (case findTaskById taskId (datas storageData) of
             None \<Rightarrow> (Inl (TaskNotFoundError taskId), w1)
           | Some task \<Rightarrow> (Inr task, w1)))"

section \<open>Auxiliary definitions for the statements\<close>

text \<open>The children of a node, an absent \<^verbatim>\<open>subtasks\<close> key read as no children.\<close>

definition subs :: "task \<Rightarrow> task list" where
  "subs t = (case task_subtasks t of Some ss \<Rightarrow> ss | None \<Rightarrow> [])"

text \<open>A process in which only the data file of user \<open>u\<close> exists, holding \<open>d\<close>.\<close>

definition storedWorld :: "string \<Rightarrow> StorageFile \<Rightarrow> world" where
  "storedWorld u d = freshWorld\<lparr>tasksFile := (tasksFile freshWorld)(u := Some (toJson d))\<rparr>"

text \<open>Example data: a leaf task, and a file with the default states and one task.\<close>

definition oneTask :: "int \<Rightarrow> string \<Rightarrow> task" where
  "oneTask i s = Task (Some i) (Some ''A'') None None (Some ''01/01/2024'') (Some s) None"

definition oneTaskFile :: StorageFile where
  "oneTaskFile = \<lparr>meta_states = DEFAULT_TASK_STATES, datas = [oneTask 0 ''todo'']\<rparr>"

definition task1File :: StorageFile where
  "task1File = \<lparr>meta_states = DEFAULT_TASK_STATES, datas = [oneTask 1 ''todo'']\<rparr>"

text \<open>
  A process in which user \<open>u\<close> has a data file and a backup directory with two task
  backups and one configuration backup.
\<close>

definition twoBackups :: world where
  "twoBackups = (storedWorld ''u'' oneTaskFile)
     \<lparr>backupDir := (\<lambda>v. [(''tasks-2024-01-01T10-00-00-000Z.json'', toJson DEFAULT_STORAGE_DATA),
                          (''config-1700000000000.json'', Unparsable),
                          (''tasks-2024-01-02T10-00-00-000Z.json'', toJson oneTaskFile)])\<rparr>"



text \<open>Example data: task 0 with child 1 and grandchild 2, and a second root 3.\<close>

definition nestedFile :: StorageFile where
  "nestedFile = \<lparr>meta_states = DEFAULT_TASK_STATES,
     datas = [Task (Some 0) (Some ''Parent'') None
                (Some [Task (Some 1) (Some ''Child'') None
                         (Some [oneTask 2 ''todo'']) (Some ''01/01/2024'') (Some ''todo'') None])
                (Some ''01/01/2024'') (Some ''todo'') None,
              oneTask 3 ''done'']\<rparr>"

text \<open>Example data with a duplicate id: task 0 with child 1, and a second root with id 1.\<close>

definition dupFile :: StorageFile where
  "dupFile = \<lparr>meta_states = DEFAULT_TASK_STATES,
     datas = [Task (Some 0) (Some ''Parent'') None (Some [oneTask 1 ''todo''])
                (Some ''01/01/2024'') (Some ''todo'') None,
              oneTask 1 ''done'']\<rparr>"

text \<open>
  The ids in the subtree of the node that an id resolves to (none if it does not
  resolve), and the batches of \<open>moveTask\<close> in which no id comes after the id of one
  of its proper descendants in the forest \<open>stale\<close>.
\<close>

definition subtreeIds :: "task list \<Rightarrow> int \<Rightarrow> int set" where
  "subtreeIds tasks x =
     (case findTaskById x tasks of Some t \<Rightarrow> set (extractFromTask t) | None \<Rightarrow> {})"

fun ancestorsFirst :: "task list \<Rightarrow> int list \<Rightarrow> bool" where
  "ancestorsFirst stale [] = True"
| "ancestorsFirst stale (x # rest) =
     (list_all (\<lambda>y. x = y \<or> x \<notin> subtreeIds stale y) rest \<and> ancestorsFirst stale rest)"

text \<open>
  The invariant of the stored forest: user \<open>u\<close> has a well-formed data file in which
  no two nodes, at any depth, have the same id.
\<close>

definition storedUnique :: "string \<Rightarrow> world \<Rightarrow> bool" where
  "storedUnique u w =
     (case tasksFile w u of
        None \<Rightarrow> False
      | Some c \<Rightarrow> (case parseStorage c of
                     None \<Rightarrow> False
                   | Some d \<Rightarrow> distinct (extractAllIds (datas d))))"

section \<open>The ID allocator returns the least unused id\<close>

lemma generateTaskId_scan_spec:
  "i \<le> generateTaskId_scan xs i \<and> generateTaskId_scan xs i \<notin> set xs \<and>
   (\<forall>k. i \<le> k \<and> k < generateTaskId_scan xs i \<longrightarrow> k \<in> set xs)"
proof (induction xs i rule: generateTaskId_scan.induct)
  case (1 xs i)
  show ?case
  proof (cases "i \<in> set xs")
    case True
    have eq: "generateTaskId_scan xs i = generateTaskId_scan xs (i + 1)"
      using True by (subst generateTaskId_scan.simps) simp
    have ih: "i + 1 \<le> generateTaskId_scan xs (i + 1) \<and>
              generateTaskId_scan xs (i + 1) \<notin> set xs \<and>
              (\<forall>k. i + 1 \<le> k \<and> k < generateTaskId_scan xs (i + 1) \<longrightarrow> k \<in> set xs)"
      using "1.IH" [OF True] .
    have "\<And>k. i \<le> k \<Longrightarrow> k < generateTaskId_scan xs (i + 1) \<Longrightarrow> k \<in> set xs"
    proof -
      fix k assume a: "i \<le> k" "k < generateTaskId_scan xs (i + 1)"
      show "k \<in> set xs"
      proof (cases "k = i")
        case True
        with \<open>i \<in> set xs\<close> show ?thesis by simp
      next
        case False
        with a have "i + 1 \<le> k" by simp
        with ih a show ?thesis by blast
      qed
    qed
    with ih show ?thesis unfolding eq by auto
  next
    case False
    have "generateTaskId_scan xs i = i"
      using False by (subst generateTaskId_scan.simps) simp
    with False show ?thesis by auto
  qed
qed

lemma no_gaps_set:
  assumes d: "distinct xs" and nn: "\<forall>x \<in> set xs. 0 \<le> x" and ne: "xs \<noteq> []"
    and mx: "Max (set xs) = int (length xs) - 1"
  shows "set xs = {0 ..< int (length xs)}"
proof -
  have sub: "set xs \<subseteq> {0 ..< int (length xs)}"
  proof
    fix x assume x: "x \<in> set xs"
    then have "x \<le> Max (set xs)" by simp
    with mx nn x show "x \<in> {0 ..< int (length xs)}" by auto
  qed
  have "card (set xs) = length xs"
    using d by (simp add: distinct_card)
  then have "card (set xs) = card {0 ..< int (length xs)}" by simp
  with sub show ?thesis
    by (intro card_subset_eq) simp_all
qed

lemma generateTaskId_fresh: "generateTaskId xs \<notin> set xs"
proof (cases "xs = []")
  case True
  then show ?thesis by (simp add: generateTaskId_def)
next
  case False
  show ?thesis
  proof (cases "Max (set xs) = int (length xs) - 1")
    case True
    have "int (length xs) \<notin> set xs"
    proof
      assume "int (length xs) \<in> set xs"
      then have "int (length xs) \<le> Max (set xs)" by simp
      with True show False by simp
    qed
    with True False show ?thesis by (simp add: generateTaskId_def)
  next
    case nomax: False
    with False show ?thesis
      using generateTaskId_scan_spec [of 0 xs] by (simp add: generateTaskId_def)
  qed
qed

text \<open>
  C6.  For a duplicate-free list of non-negative integers, \<open>generateTaskId\<close> returns the
  smallest non-negative integer that is not in the list: the result is non-negative, is
  not in the list, and every smaller non-negative integer is in the list.  In
  particular the result is 0 for the empty list and \<open>n\<close> when the list is a permutation
  of \<open>0, ..., n - 1\<close>.
\<close>

theorem generateTaskId_least_unused:
  assumes d: "distinct ids" and nn: "\<forall>x \<in> set ids. 0 \<le> x"
  shows "0 \<le> generateTaskId ids \<and> generateTaskId ids \<notin> set ids \<and>
         (\<forall>k. 0 \<le> k \<and> k < generateTaskId ids \<longrightarrow> k \<in> set ids) \<and>
         (ids = [] \<longrightarrow> generateTaskId ids = 0) \<and>
         (\<forall>n. set ids = {0 ..< int n} \<longrightarrow> generateTaskId ids = int n)"
proof -
  have least: "0 \<le> generateTaskId ids \<and>
               (\<forall>k. 0 \<le> k \<and> k < generateTaskId ids \<longrightarrow> k \<in> set ids)"
  proof (cases "ids = []")
    case True
    then show ?thesis by (simp add: generateTaskId_def)
  next
    case False
    show ?thesis
    proof (cases "Max (set ids) = int (length ids) - 1")
      case True
      have "set ids = {0 ..< int (length ids)}"
        using no_gaps_set [OF d nn False True] .
      moreover have "generateTaskId ids = int (length ids)"
        using True False by (simp add: generateTaskId_def)
      ultimately show ?thesis by auto
    next
      case nomax: False
      have "generateTaskId ids = generateTaskId_scan ids 0"
        using False nomax by (simp add: generateTaskId_def)
      then show ?thesis
        using generateTaskId_scan_spec [of 0 ids] by simp
    qed
  qed
  have fresh: "generateTaskId ids \<notin> set ids"
    by (rule generateTaskId_fresh)
  have perm: "\<forall>n. set ids = {0 ..< int n} \<longrightarrow> generateTaskId ids = int n"
  proof (intro allI impI)
    fix n :: nat
    assume s: "set ids = {0 ..< int n}"
    have notin: "int n \<notin> set ids" using s by simp
    have "\<not> generateTaskId ids < int n"
    proof
      assume "generateTaskId ids < int n"
      with least s have "generateTaskId ids \<in> set ids" by simp
      with fresh show False by simp
    qed
    moreover have "\<not> int n < generateTaskId ids"
    proof
      assume "int n < generateTaskId ids"
      with least have "int n \<in> set ids" by simp
      with notin show False by simp
    qed
    ultimately show "generateTaskId ids = int n" by simp
  qed
  have "ids = [] \<longrightarrow> generateTaskId ids = 0"
    by (simp add: generateTaskId_def)
  with least fresh perm show ?thesis by blast
qed

theorem generateTaskId_least_unused_witness:
  "distinct [0, 3, 1 :: int] \<and> list_all (\<lambda>x. 0 \<le> x) [0, 3, 1 :: int] \<and>
   generateTaskId [0, 3, 1] = 2"
proof -
  have d: "distinct [0, 3, 1 :: int]" by simp
  have nn: "\<forall>x \<in> set [0, 3, 1 :: int]. 0 \<le> x" by simp
  note th = generateTaskId_least_unused [OF d nn]
  have nonneg: "0 \<le> generateTaskId [0, 3, 1]"
    using th by blast
  have fresh: "generateTaskId [0, 3, 1] \<notin> set [0, 3, 1]"
    using th by blast
  have below: "\<And>k. 0 \<le> k \<Longrightarrow> k < generateTaskId [0, 3, 1] \<Longrightarrow> k \<in> set [0, 3, 1]"
    using th by blast
  have "\<not> 2 < generateTaskId [0, 3, 1]"
  proof
    assume "2 < generateTaskId [0, 3, 1]"
    then have "(2::int) \<in> set [0, 3, 1]" by (intro below) simp_all
    then show False by simp
  qed
  moreover have "generateTaskId [0, 3, 1] \<noteq> 0" "generateTaskId [0, 3, 1] \<noteq> 1"
    using fresh by auto
  ultimately have "generateTaskId [0, 3, 1] = 2"
    using nonneg by arith
  with d show ?thesis by simp
qed


section \<open>Forests: lookup and in-place change\<close>

lemma forest_induct [case_names Nil Cons]:
  assumes nil: "P []"
    and cons: "\<And>t ts. P (subs t) \<Longrightarrow> P ts \<Longrightarrow> P (t # ts)"
  shows "P ds"
proof (induction ds rule: measure_induct_rule [where f = "size_list size"])
  case (less ds)
  show ?case
  proof (cases ds)
    case Nil
    then show ?thesis using nil by simp
  next
    case (Cons t ts)
    have "size_list size (subs t) < size_list size ds"
    proof (cases "task_subtasks t")
      case None
      then show ?thesis using Cons by (simp add: subs_def)
    next
      case (Some ss)
      then show ?thesis using Cons size_subtasks [OF Some] by (simp add: subs_def)
    qed
    then have 1: "P (subs t)" by (rule less.IH)
    have "size_list size ts < size_list size ds" using Cons by simp
    then have 2: "P ts" by (rule less.IH)
    show ?thesis using cons [OF 1 2] Cons by simp
  qed
qed

lemma extractFromTask_eq:
  "extractFromTask t = (case task_id t of Some k \<Rightarrow> [k] | None \<Rightarrow> []) @ extractAllIds (subs t)"
  by (cases t) (auto simp: subs_def extractAllIds_def split: option.splits)

lemma extractAllIds_Nil [simp]: "extractAllIds [] = []"
  by (simp add: extractAllIds_def)

lemma extractAllIds_Cons:
  "extractAllIds (t # ts) =
     (case task_id t of Some k \<Rightarrow> [k] | None \<Rightarrow> []) @ extractAllIds (subs t) @ extractAllIds ts"
  by (simp add: extractAllIds_def extractFromTask_eq)

lemma extractAllIds_append [simp]:
  "extractAllIds (xs @ ys) = extractAllIds xs @ extractAllIds ys"
  by (simp add: extractAllIds_def)

lemma findTaskById_Cons:
  "findTaskById i (t # ts) =
     (if task_id t = Some i then Some t
      else case findTaskById i (subs t) of Some r \<Rightarrow> Some r | None \<Rightarrow> findTaskById i ts)"
  by (cases "task_subtasks t") (simp_all add: subs_def)

lemma modifyTaskById_Cons:
  "modifyTaskById i f (t # ts) =
     (if task_id t = Some i then Some (f t # ts)
      else case modifyTaskById i f (subs t) of
             Some ss' \<Rightarrow> Some (setSubtasks (Some ss') t # ts)
           | None \<Rightarrow> map_option ((#) t) (modifyTaskById i f ts))"
  by (cases "task_subtasks t") (simp_all add: subs_def)

declare findTaskById.simps(2) [simp del]
declare modifyTaskById.simps(2) [simp del]

lemma findTaskById_id: "findTaskById i ds = Some t \<Longrightarrow> task_id t = Some i"
proof (induction ds rule: forest_induct)
  case Nil
  then show ?case by simp
next
  case (Cons t0 ts)
  show ?case
  proof (cases "task_id t0 = Some i")
    case True
    with Cons.prems show ?thesis by (simp add: findTaskById_Cons)
  next
    case False
    show ?thesis
    proof (cases "findTaskById i (subs t0)")
      case None
      with False Cons.prems have "findTaskById i ts = Some t" by (simp add: findTaskById_Cons)
      then show ?thesis by (rule Cons.IH(2))
    next
      case (Some r)
      with False Cons.prems have "findTaskById i (subs t0) = Some t" by (simp add: findTaskById_Cons)
      then show ?thesis by (rule Cons.IH(1))
    qed
  qed
qed

lemma findTaskById_None_iff: "findTaskById i ds = None \<longleftrightarrow> i \<notin> set (extractAllIds ds)"
proof (induction ds rule: forest_induct)
  case Nil
  then show ?case by simp
next
  case (Cons t0 ts)
  show ?case
  proof (cases "task_id t0 = Some i")
    case True
    then show ?thesis by (simp add: findTaskById_Cons extractAllIds_Cons)
  next
    case False
    then have notin: "i \<notin> set (case task_id t0 of Some k \<Rightarrow> [k] | None \<Rightarrow> [])"
      by (cases "task_id t0") simp_all
    show ?thesis
    proof (cases "findTaskById i (subs t0)")
      case None
      with False notin Cons.IH show ?thesis
        by (simp add: findTaskById_Cons extractAllIds_Cons)
    next
      case (Some r)
      with False notin Cons.IH show ?thesis
        by (simp add: findTaskById_Cons extractAllIds_Cons)
    qed
  qed
qed

lemma modifyTaskById_None_iff: "modifyTaskById i f ds = None \<longleftrightarrow> findTaskById i ds = None"
proof (induction ds rule: forest_induct)
  case Nil
  then show ?case by simp
next
  case (Cons t0 ts)
  show ?case
  proof (cases "task_id t0 = Some i")
    case True
    then show ?thesis by (simp add: findTaskById_Cons modifyTaskById_Cons)
  next
    case False
    show ?thesis
    proof (cases "findTaskById i (subs t0)")
      case None
      then have "modifyTaskById i f (subs t0) = None" using Cons.IH(1) by simp
      with None False Cons.IH(2) show ?thesis
        by (simp add: findTaskById_Cons modifyTaskById_Cons)
    next
      case (Some r)
      then obtain ss' where "modifyTaskById i f (subs t0) = Some ss'"
        using Cons.IH(1) by (cases "modifyTaskById i f (subs t0)") simp_all
      with Some False show ?thesis
        by (simp add: findTaskById_Cons modifyTaskById_Cons)
    qed
  qed
qed

lemma task_id_setSubtasks [simp]: "task_id (setSubtasks ss t) = task_id t"
  by (simp add: setSubtasks_def)

lemma task_state_setSubtasks [simp]: "task_state (setSubtasks ss t) = task_state t"
  by (simp add: setSubtasks_def)

lemma task_subtasks_setSubtasks [simp]: "task_subtasks (setSubtasks ss t) = ss"
  by (simp add: setSubtasks_def)

lemma subs_setSubtasks [simp]: "subs (setSubtasks (Some ss) t) = ss"
  by (simp add: subs_def)

lemma find_after_modify:
  "findTaskById i ds = Some t \<Longrightarrow> task_id (f t) = Some i \<Longrightarrow>
   \<exists>ds'. modifyTaskById i f ds = Some ds' \<and> findTaskById i ds' = Some (f t)"
proof (induction ds rule: forest_induct)
  case Nil
  then show ?case by simp
next
  case (Cons t0 ts)
  show ?case
  proof (cases "task_id t0 = Some i")
    case True
    with Cons.prems show ?thesis by (simp add: findTaskById_Cons modifyTaskById_Cons)
  next
    case False
    show ?thesis
    proof (cases "findTaskById i (subs t0)")
      case None
      with False Cons.prems have "findTaskById i ts = Some t" by (simp add: findTaskById_Cons)
      from Cons.IH(2) [OF this Cons.prems(2)] obtain ts' where
        ts': "modifyTaskById i f ts = Some ts'" "findTaskById i ts' = Some (f t)" by blast
      have "modifyTaskById i f (subs t0) = None"
        using None by (simp add: modifyTaskById_None_iff)
      with ts' None False show ?thesis
        by (simp add: findTaskById_Cons modifyTaskById_Cons)
    next
      case (Some r)
      with False Cons.prems have "findTaskById i (subs t0) = Some t" by (simp add: findTaskById_Cons)
      from Cons.IH(1) [OF this Cons.prems(2)] obtain ss' where
        "modifyTaskById i f (subs t0) = Some ss'" "findTaskById i ss' = Some (f t)" by blast
      with False show ?thesis
        by (simp add: findTaskById_Cons modifyTaskById_Cons)
    qed
  qed
qed

lemma task_id_objectAssign [simp]:
  "task_id (objectAssign t u) = (case p_id u of Some v \<Rightarrow> Some v | None \<Rightarrow> task_id t)"
  by (simp add: objectAssign_def)

lemma task_state_objectAssign [simp]:
  "task_state (objectAssign t u) = (case p_state u of Some v \<Rightarrow> Some v | None \<Rightarrow> task_state t)"
  by (simp add: objectAssign_def)

lemma task_subtasks_objectAssign [simp]:
  "task_subtasks (objectAssign t u) =
     (case p_subtasks u of Some v \<Rightarrow> Some v | None \<Rightarrow> task_subtasks t)"
  by (simp add: objectAssign_def)

lemma task_id_applyUpdatesRecursive [simp]:
  "task_id (applyUpdatesRecursive u t) = (case p_id u of Some v \<Rightarrow> Some v | None \<Rightarrow> task_id t)"
  by (cases t) (simp split: option.split)

lemma task_state_applyUpdatesRecursive [simp]:
  "task_state (applyUpdatesRecursive u t) = (case p_state u of Some v \<Rightarrow> Some v | None \<Rightarrow> task_state t)"
  by (cases t) (simp split: option.split)

lemma task_subtasks_applyUpdatesRecursive:
  "p_subtasks u = None \<Longrightarrow>
   task_subtasks (applyUpdatesRecursive u t) = map_option (map (applyUpdatesRecursive u)) (task_subtasks t)"
  by (cases t) simp

lemma mergeFailure_nosub [simp]:
  "p_subtasks updates = None \<Longrightarrow> mergeFailure recursive updates held taskId tasks task = None"
  by (simp add: mergeFailure_def recursionUnbounded_def)

lemma holders_nosub [simp]:
  "p_subtasks updates = None \<Longrightarrow> holders updates held taskId tasks = held"
  by (simp add: holders_def)

lemma p_subtasks_noFields [simp]: "p_subtasks noFields = None"
  by (simp add: noFields_def)

lemma task_id_applyUpdates [simp]:
  "task_id (applyUpdates r u t) = (case p_id u of Some v \<Rightarrow> Some v | None \<Rightarrow> task_id t)"
  by (simp add: applyUpdates_def)

lemma task_state_applyUpdates [simp]:
  "task_state (applyUpdates r u t) = (case p_state u of Some v \<Rightarrow> Some v | None \<Rightarrow> task_state t)"
  by (simp add: applyUpdates_def)

lemma parseStorage_toJson [simp]: "parseStorage (toJson d) = Some d"
  by (simp add: parseStorage_def toJson_def)

lemma loadStorage_present:
  "tasksFile w u = Some (toJson d) \<Longrightarrow> loadStorage u w = (Inr (d, False), w)"
  by (simp add: loadStorage_def)

lemma mutated_False [simp]: "mutated False d w = w"
  by (simp add: mutated_def)

lemma tasksFile_saveStorage [simp]: "tasksFile (saveStorage u d w) u = Some (toJson d)"
  by (simp add: saveStorage_def)

section \<open>editTask\<close>

lemma tasksFile_storedWorld [simp]: "tasksFile (storedWorld u d) u = Some (toJson d)"
  by (simp add: storedWorld_def)


lemma editTask_present:
  "tasksFile w u = Some (toJson d) \<Longrightarrow>
   editTask u taskIds updates recursive w =
     (case editTask_loop (meta_states d) updates recursive [] taskIds (datas d) of
        (Some e, tasks) \<Rightarrow> (Inl e, w)
      | (None, tasks) \<Rightarrow> (Inr (), saveStorage u (d\<lparr>datas := tasks\<rparr>) w))"
  by (simp add: editTask_def loadStorage_present split: prod.split option.split)

lemma mergeFailure_cases:
  "mergeFailure recursive updates held taskId tasks task = Some e \<Longrightarrow> e = RangeError \<or> e = SaveError"
  by (auto simp: mergeFailure_def split: if_splits option.splits)

lemma editTask_loop_no_unknown_state:
  "p_state updates = Some [] \<Longrightarrow>
   fst (editTask_loop sts updates recursive held ids tasks) \<noteq> Some (TaskStateUnknownError j s)"
proof (induction ids arbitrary: tasks held)
  case Nil
  then show ?case by simp
next
  case (Cons i rest)
  have sc: "checkState i updates sts = None"
    using Cons.prems by (simp add: checkState_def)
  show ?case
  proof (cases "findTaskById i tasks")
    case None
    then show ?thesis by simp
  next
    case (Some t)
    note found = this
    show ?thesis
    proof (cases "mergeFailure recursive updates held i tasks t")
      case (Some e)
      with mergeFailure_cases [OF Some] found sc show ?thesis by auto
    next
      case None
      note nofail = this
      show ?thesis
      proof (cases "modifyTaskById i (applyUpdates recursive updates) tasks")
        case None
        with found sc nofail show ?thesis by simp
      next
        case (Some tasks')
        with found sc nofail
          Cons.IH [OF Cons.prems, of "holders updates held i tasks" tasks']
        show ?thesis by simp
      qed
    qed
  qed
qed

lemma editTask_no_unknown_state:
  assumes "p_state updates = Some []"
  shows "fst (editTask u ids updates recursive w) \<noteq> Inl (TaskStateUnknownError j s)"
proof (cases "loadStorage u w")
  case (Pair r w1)
  show ?thesis
  proof (cases r)
    case (Inl e)
    then have "e = LoadError" using Pair
      by (auto simp: loadStorage_def split: option.splits)
    with Inl Pair show ?thesis by (simp add: editTask_def)
  next
    case (Inr p)
    obtain d sh where p: "p = (d, sh)" by (cases p)
    obtain r' ds where l: "editTask_loop (meta_states d) updates recursive [] ids (datas d) = (r', ds)"
      by (cases "editTask_loop (meta_states d) updates recursive [] ids (datas d)")
    have "r' \<noteq> Some (TaskStateUnknownError j s)"
      using editTask_loop_no_unknown_state [OF assms, of "meta_states d" recursive "[]" ids "datas d" j s] l
      by simp
    with Pair Inr p l show ?thesis
      by (cases r') (simp_all add: editTask_def Let_def)
  qed
qed

lemma getTask_present:
  "tasksFile w u = Some (toJson d) \<Longrightarrow>
   getTask u i w = (case findTaskById i (datas d) of
                      None \<Rightarrow> (Inl (TaskNotFoundError i), w)
                    | Some task \<Rightarrow> (Inr task, w))"
  by (simp add: getTask_def loadStorage_present)

lemma mergeFailure_first:
  "\<not> (recursive \<and> task_subtasks task \<noteq> None \<and> recursionUnbounded updates) \<Longrightarrow>
   mergeFailure recursive updates [] taskId tasks task = None"
  by (auto simp: mergeFailure_def split: option.splits)

text \<open>
  C9 (as amended).  \<open>editTask\<close> validates the requested state only when the string is
  non-empty.  For every stored forest (a data file that exists and is well formed) and
  every id that resolves, an edit of that id whose updates set the state to the empty
  string succeeds, the updates are merged into the node that \<open>findTaskById\<close> returns,
  and the data file then holds the forest with the merged node: the node's state is
  the empty string, whether or not a state with that name is configured.  No batch
  with such updates fails with \<open>TaskStateUnknownError\<close>.  One kind of edit is left
  out: a recursive edit of a node that has a \<^verbatim>\<open>subtasks\<close> key, with updates that carry a
  non-empty \<^verbatim>\<open>subtasks\<close> array, never finishes its merge and saves nothing.
\<close>

theorem editTask_empty_state_unchecked:
  assumes stored: "tasksFile w u = Some (toJson d)"
    and found: "findTaskById i (datas d) = Some t"
    and st: "p_state updates = Some []"
    and returns: "\<not> (recursive \<and> task_subtasks t \<noteq> None \<and>
                      (\<exists>a as. p_subtasks updates = Some (a # as)))"
  shows "\<exists>ds. modifyTaskById i (applyUpdates recursive updates) (datas d) = Some ds \<and>
           editTask u [i] updates recursive w = (Inr (), saveStorage u (d\<lparr>datas := ds\<rparr>) w) \<and>
           tasksFile (snd (editTask u [i] updates recursive w)) u = Some (toJson (d\<lparr>datas := ds\<rparr>)) \<and>
           task_state (applyUpdates recursive updates t) = Some [] \<and>
           (p_id updates = None \<longrightarrow>
              (\<exists>t'. findTaskById i ds = Some t' \<and> task_state t' = Some [])) \<and>
           (p_id updates = None \<longrightarrow>
              (\<exists>t'. fst (getTask u i (snd (editTask u [i] updates recursive w))) = Inr t' \<and>
                    task_state t' = Some [])) \<and>
           (\<forall>ids j s. fst (editTask u ids updates recursive w) \<noteq> Inl (TaskStateUnknownError j s))"
proof -
  obtain ds where ds: "modifyTaskById i (applyUpdates recursive updates) (datas d) = Some ds"
    using found modifyTaskById_None_iff [of i "applyUpdates recursive updates" "datas d"]
    by (cases "modifyTaskById i (applyUpdates recursive updates) (datas d)") simp_all
  have sc: "checkState i updates (meta_states d) = None"
    using st by (simp add: checkState_def)
  have "\<not> (recursive \<and> task_subtasks t \<noteq> None \<and> recursionUnbounded updates)"
    using returns by (auto simp: recursionUnbounded_def split: option.splits list.splits)
  then have mf: "mergeFailure recursive updates [] i (datas d) t = None"
    by (rule mergeFailure_first)
  have run: "editTask u [i] updates recursive w = (Inr (), saveStorage u (d\<lparr>datas := ds\<rparr>) w)"
    using found sc ds mf by (simp add: editTask_present [OF stored])
  have saved: "tasksFile (snd (editTask u [i] updates recursive w)) u = Some (toJson (d\<lparr>datas := ds\<rparr>))"
    by (simp add: run)
  have state: "task_state (applyUpdates recursive updates t) = Some []"
    using st by simp
  have keep: "p_id updates = None \<longrightarrow>
              (\<exists>t'. findTaskById i ds = Some t' \<and> task_state t' = Some [])"
  proof
    assume noid: "p_id updates = None"
    have "task_id (applyUpdates recursive updates t) = Some i"
      using noid findTaskById_id [OF found] by simp
    from find_after_modify [of i "datas d" t "applyUpdates recursive updates", OF found this] ds
    have "findTaskById i ds = Some (applyUpdates recursive updates t)" by simp
    with state show "\<exists>t'. findTaskById i ds = Some t' \<and> task_state t' = Some []" by blast
  qed
  have reread: "p_id updates = None \<longrightarrow>
              (\<exists>t'. fst (getTask u i (snd (editTask u [i] updates recursive w))) = Inr t' \<and>
                    task_state t' = Some [])"
  proof
    assume "p_id updates = None"
    with keep obtain t' where t': "findTaskById i ds = Some t'" "task_state t' = Some []"
      by blast
    have "getTask u i (saveStorage u (d\<lparr>datas := ds\<rparr>) w) =
            (Inr t', saveStorage u (d\<lparr>datas := ds\<rparr>) w)"
      using t'(1) by (simp add: getTask_present [of _ u "d\<lparr>datas := ds\<rparr>"])
    with t'(2) show "\<exists>t'. fst (getTask u i (snd (editTask u [i] updates recursive w))) = Inr t' \<and>
                    task_state t' = Some []"
      by (simp add: run)
  qed
  have never: "\<forall>ids j s. fst (editTask u ids updates recursive w) \<noteq> Inl (TaskStateUnknownError j s)"
    using editTask_no_unknown_state [OF st] by blast
  show ?thesis
    by (intro exI [of _ ds] conjI ds run saved state keep reread never)
qed

theorem editTask_empty_state_unchecked_witness:
  "\<not> validateState [] DEFAULT_TASK_STATES \<and>
   editTask ''u'' [0] (noFields\<lparr>p_state := Some []\<rparr>) False (storedWorld ''u'' oneTaskFile) =
     (Inr (), saveStorage ''u'' (oneTaskFile\<lparr>datas := [oneTask 0 []]\<rparr>) (storedWorld ''u'' oneTaskFile)) \<and>
   tasksFile (snd (editTask ''u'' [0] (noFields\<lparr>p_state := Some []\<rparr>) False
                     (storedWorld ''u'' oneTaskFile))) ''u''
     = Some (toJson (oneTaskFile\<lparr>datas := [oneTask 0 []]\<rparr>)) \<and>
   findTaskById 0 [oneTask 0 []] = Some (oneTask 0 [])"
proof -
  have stored: "tasksFile (storedWorld ''u'' oneTaskFile) ''u'' = Some (toJson oneTaskFile)"
    by simp
  have found: "findTaskById 0 (datas oneTaskFile) = Some (oneTask 0 ''todo'')"
    by (simp add: oneTaskFile_def oneTask_def findTaskById_Cons)
  have st: "p_state (noFields\<lparr>p_state := Some []\<rparr>) = Some []"
    by simp
  have returns: "\<not> (False \<and> task_subtasks (oneTask 0 ''todo'') \<noteq> None \<and>
                      (\<exists>a as. p_subtasks (noFields\<lparr>p_state := Some []\<rparr>) = Some (a # as)))"
    by simp
  have m: "modifyTaskById 0 (applyUpdates False (noFields\<lparr>p_state := Some []\<rparr>)) (datas oneTaskFile)
             = Some [oneTask 0 []]"
    by (simp add: oneTaskFile_def oneTask_def modifyTaskById_Cons applyUpdates_def
          objectAssign_def noFields_def)
  have v: "\<not> validateState [] DEFAULT_TASK_STATES"
    by (simp add: validateState_def DEFAULT_TASK_STATES_def)
  have f: "findTaskById 0 [oneTask 0 []] = Some (oneTask 0 [])"
    by (simp add: oneTask_def findTaskById_Cons)
  from editTask_empty_state_unchecked [OF stored found st returns] m v f
  show ?thesis by auto
qed

text \<open>
  The edit left out: on the forest in which task 0 has children, the recursive edit
  of task 0 with the empty state and a one-element \<^verbatim>\<open>subtasks\<close> array.  The merge gives
  task 0 the array as its children, then gives the array's node the same array, and
  visits that node without end; the call ends with the runtime's \<^verbatim>\<open>RangeError\<close> and the
  stored file is unchanged, so the empty state is not persisted.
\<close>

theorem editTask_empty_state_counterexample:
  "(\<exists>t. findTaskById 0 (datas nestedFile) = Some t \<and> task_subtasks t \<noteq> None) \<and>
   p_state (noFields\<lparr>p_subtasks := Some [oneTask 5 ''todo''], p_state := Some []\<rparr>) = Some [] \<and>
   editTask ''u'' [0] (noFields\<lparr>p_subtasks := Some [oneTask 5 ''todo''], p_state := Some []\<rparr>) True
       (storedWorld ''u'' nestedFile)
     = (Inl RangeError, storedWorld ''u'' nestedFile)"
  by (simp add: storedWorld_def freshWorld_def nestedFile_def oneTask_def noFields_def
        editTask_def loadStorage_def parseStorage_def toJson_def mutated_def
        findTaskById_Cons checkState_def mergeFailure_def recursionUnbounded_def)


lemma extractAllIds_Cons':
  "extractAllIds (t # ts) = extractFromTask t @ extractAllIds ts"
  by (simp add: extractAllIds_def)

lemma extractFromTask_setSubtasks:
  "extractFromTask (setSubtasks (Some ss) t) =
     (case task_id t of Some k \<Rightarrow> [k] | None \<Rightarrow> []) @ extractAllIds ss"
  by (simp add: extractFromTask_eq)

lemma modifyTaskById_ids:
  "findTaskById i ds = Some t \<Longrightarrow> modifyTaskById i f ds = Some ds' \<Longrightarrow>
   mset (extractAllIds ds') + mset (extractFromTask t) =
   mset (extractAllIds ds) + mset (extractFromTask (f t))"
proof (induction ds arbitrary: ds' rule: forest_induct)
  case Nil
  then show ?case by simp
next
  case (Cons t0 ts)
  show ?case
  proof (cases "task_id t0 = Some i")
    case True
    with Cons.prems have "t = t0" "ds' = f t0 # ts"
      by (simp_all add: findTaskById_Cons modifyTaskById_Cons)
    then show ?thesis by (simp add: extractAllIds_Cons')
  next
    case False
    show ?thesis
    proof (cases "findTaskById i (subs t0)")
      case None
      then have mn: "modifyTaskById i f (subs t0) = None"
        by (simp add: modifyTaskById_None_iff)
      from None False Cons.prems(1) have f: "findTaskById i ts = Some t"
        by (simp add: findTaskById_Cons)
      from mn False Cons.prems(2) obtain ts' where
        ts': "modifyTaskById i f ts = Some ts'" "ds' = t0 # ts'"
        by (auto simp: modifyTaskById_Cons)
      from Cons.IH(2) [OF f ts'(1)] ts'(2) show ?thesis
        by (simp add: extractAllIds_Cons')
    next
      case (Some r)
      with False Cons.prems(1) have f: "findTaskById i (subs t0) = Some t"
        by (simp add: findTaskById_Cons)
      then obtain ss' where ss': "modifyTaskById i f (subs t0) = Some ss'"
        using modifyTaskById_None_iff [of i f "subs t0"]
        by (cases "modifyTaskById i f (subs t0)") simp_all
      with False Cons.prems(2) have d: "ds' = setSubtasks (Some ss') t0 # ts"
        by (simp add: modifyTaskById_Cons)
      from Cons.IH(1) [OF f ss'] show ?thesis
        unfolding d by (simp add: extractAllIds_Cons' extractFromTask_setSubtasks)
           (simp add: extractFromTask_eq)
    qed
  qed
qed

lemma subs_applyUpdatesRecursive:
  "p_subtasks u = None \<Longrightarrow>
   subs (applyUpdatesRecursive u t) = map (applyUpdatesRecursive u) (subs t)"
  by (cases "task_subtasks t") (simp_all add: subs_def task_subtasks_applyUpdatesRecursive)

lemma extractAllIds_applyUpdatesRecursive:
  "p_id u = None \<Longrightarrow> p_subtasks u = None \<Longrightarrow>
   extractAllIds (map (applyUpdatesRecursive u) ds) = extractAllIds ds"
proof (induction ds rule: forest_induct)
  case Nil
  then show ?case by simp
next
  case (Cons t ts)
  then show ?case
    by (simp add: extractAllIds_Cons subs_applyUpdatesRecursive)
qed

lemma subs_objectAssign [simp]:
  "subs (objectAssign t u) = (case p_subtasks u of Some v \<Rightarrow> v | None \<Rightarrow> subs t)"
  by (simp add: subs_def split: option.split)

lemma extractFromTask_applyUpdates:
  "p_id u = None \<Longrightarrow> p_subtasks u = None \<Longrightarrow>
   extractFromTask (applyUpdates r u t) = extractFromTask t"
  by (simp add: applyUpdates_def extractFromTask_eq subs_applyUpdatesRecursive
        extractAllIds_applyUpdatesRecursive)

lemma editTask_step_ids:
  assumes "p_id u = None" and "p_subtasks u = None"
    and "modifyTaskById i (applyUpdates r u) ds = Some ds'"
  shows "mset (extractAllIds ds') = mset (extractAllIds ds)"
proof -
  obtain t where t: "findTaskById i ds = Some t"
    using assms(3) modifyTaskById_None_iff [of i "applyUpdates r u" ds]
    by (cases "findTaskById i ds") simp_all
  from modifyTaskById_ids [OF t assms(3)] extractFromTask_applyUpdates [OF assms(1,2), of r t]
  show ?thesis by simp
qed

lemma checkState_None_any:
  "checkState i u sts = None \<Longrightarrow> checkState k u sts = None"
  by (auto simp: checkState_def split: option.splits if_splits)

lemma editTask_loop_unresolved:
  assumes noid: "p_id u = None" and nosub: "p_subtasks u = None"
    and ok: "\<And>i. checkState i u sts = None"
  shows "find (\<lambda>i. findTaskById i ds = None) ids = Some j \<Longrightarrow>
         \<exists>ds'. editTask_loop sts u r held ids ds = (Some (TaskNotFoundError j), ds')"
proof (induction ids arbitrary: ds held)
  case Nil
  then show ?case by simp
next
  case (Cons i rest)
  show ?case
  proof (cases "findTaskById i ds")
    case None
    with Cons.prems have "j = i" by simp
    with None show ?thesis by simp
  next
    case (Some t)
    obtain ds1 where ds1: "modifyTaskById i (applyUpdates r u) ds = Some ds1"
      using Some modifyTaskById_None_iff [of i "applyUpdates r u" ds]
      by (cases "modifyTaskById i (applyUpdates r u) ds") simp_all
    have same: "set (extractAllIds ds1) = set (extractAllIds ds)"
      using editTask_step_ids [OF noid nosub ds1] by (rule mset_eq_setD)
    have eq: "(\<lambda>i. findTaskById i ds1 = None) = (\<lambda>i. findTaskById i ds = None)"
      by (simp add: findTaskById_None_iff same)
    from Cons.prems Some have "find (\<lambda>i. findTaskById i ds = None) rest = Some j"
      by simp
    then have "find (\<lambda>i. findTaskById i ds1 = None) rest = Some j"
      by (simp only: eq)
    from Cons.IH [OF this, of held] obtain ds' where
      "editTask_loop sts u r held rest ds1 = (Some (TaskNotFoundError j), ds')" by blast
    with Some ds1 ok [of i] nosub show ?thesis by simp
  qed
qed

text \<open>
  C5 (as amended).  For a data file that exists and is well formed, and updates with
  neither an \<^verbatim>\<open>id\<close> key nor a \<^verbatim>\<open>subtasks\<close> key: when the batch holds an id that resolves
  to no node of the stored forest, \<open>editTask\<close> fails and the process state, with the
  stored file, is what it was before the call, also when earlier ids of the batch were
  found and merged in memory.  The error is \<open>TaskNotFoundError\<close> for the first id of
  the batch that does not resolve (\<open>j\<close>), with one exception: when the updates carry a
  non-empty state that is not configured (\<open>checkState\<close> gives an error) and the first id
  of the batch resolves, the call fails at that first id with
  \<open>TaskStateUnknownError\<close>.
\<close>

theorem editTask_unknown_id_atomic:
  assumes stored: "tasksFile w u = Some (toJson d)"
    and noid: "p_id updates = None"
    and nosub: "p_subtasks updates = None"
    and unknown: "\<exists>i \<in> set taskIds. findTaskById i (datas d) = None"
  shows "\<exists>j. find (\<lambda>i. findTaskById i (datas d) = None) taskIds = Some j \<and>
           editTask u taskIds updates recursive w =
             (Inl (case checkState (hd taskIds) updates (meta_states d) of
                     None \<Rightarrow> TaskNotFoundError j
                   | Some e \<Rightarrow> if findTaskById (hd taskIds) (datas d) = None
                               then TaskNotFoundError j else e), w) \<and>
           tasksFile (snd (editTask u taskIds updates recursive w)) u = Some (toJson d)"
proof -
  from unknown obtain j where j: "find (\<lambda>i. findTaskById i (datas d) = None) taskIds = Some j"
    by (cases "find (\<lambda>i. findTaskById i (datas d) = None) taskIds")
       (auto simp: find_None_iff)
  from unknown obtain i0 rest where ids: "taskIds = i0 # rest"
    by (cases taskIds) auto
  have run: "editTask u taskIds updates recursive w =
             (Inl (case checkState (hd taskIds) updates (meta_states d) of
                     None \<Rightarrow> TaskNotFoundError j
                   | Some e \<Rightarrow> if findTaskById (hd taskIds) (datas d) = None
                               then TaskNotFoundError j else e), w)"
  proof (cases "checkState i0 updates (meta_states d)")
    case None
    then have "\<And>i. checkState i updates (meta_states d) = None"
      by (rule checkState_None_any)
    from editTask_loop_unresolved [OF noid nosub this j, of recursive "[]"] obtain ds' where
      "editTask_loop (meta_states d) updates recursive [] taskIds (datas d)
         = (Some (TaskNotFoundError j), ds')" by blast
    with None ids show ?thesis
      by (simp add: editTask_present [OF stored])
  next
    case (Some e)
    show ?thesis
    proof (cases "findTaskById i0 (datas d)")
      case None
      with j ids have "j = i0" by simp
      with None Some ids show ?thesis
        by (simp add: editTask_present [OF stored])
    next
      case (Some t)
      with \<open>checkState i0 updates (meta_states d) = Some e\<close> ids show ?thesis
        by (simp add: editTask_present [OF stored])
    qed
  qed
  have "tasksFile (snd (editTask u taskIds updates recursive w)) u = Some (toJson d)"
    by (simp add: run stored)
  with j run show ?thesis by blast
qed

lemmas eval_defs = storedWorld_def freshWorld_def oneTaskFile_def oneTask_def noFields_def
  editTask_def loadStorage_def parseStorage_def toJson_def saveStorage_def mutated_def
  findTaskById_Cons modifyTaskById_Cons subs_def checkState_def validateState_def
  DEFAULT_TASK_STATES_def applyUpdates_def objectAssign_def Let_def
  mergeFailure_def recursionUnbounded_def holders_def below_def

theorem editTask_unknown_id_atomic_witness:
  "editTask ''u'' [0, 9] (noFields\<lparr>p_name := Some ''B''\<rparr>) False (storedWorld ''u'' oneTaskFile)
     = (Inl (TaskNotFoundError 9), storedWorld ''u'' oneTaskFile) \<and>
   tasksFile (snd (editTask ''u'' [0, 9] (noFields\<lparr>p_name := Some ''B''\<rparr>) False
                     (storedWorld ''u'' oneTaskFile))) ''u'' = Some (toJson oneTaskFile)"
proof -
  have stored: "tasksFile (storedWorld ''u'' oneTaskFile) ''u'' = Some (toJson oneTaskFile)"
    by simp
  have noid: "p_id (noFields\<lparr>p_name := Some ''B''\<rparr>) = None"
    by (simp add: noFields_def)
  have nosub: "p_subtasks (noFields\<lparr>p_name := Some ''B''\<rparr>) = None"
    by (simp add: noFields_def)
  have f9: "findTaskById 9 (datas oneTaskFile) = None"
    by (simp add: oneTaskFile_def oneTask_def findTaskById_Cons subs_def)
  have f0: "findTaskById 0 (datas oneTaskFile) \<noteq> None"
    by (simp add: oneTaskFile_def oneTask_def findTaskById_Cons subs_def)
  have unknown: "\<exists>i \<in> set [0, 9]. findTaskById i (datas oneTaskFile) = None"
    using f9 by simp
  have first: "find (\<lambda>i. findTaskById i (datas oneTaskFile) = None) [0, 9] = Some 9"
    using f0 f9 by simp
  have cs: "checkState (hd [0, 9]) (noFields\<lparr>p_name := Some ''B''\<rparr>) (meta_states oneTaskFile) = None"
    by (simp add: checkState_def noFields_def)
  from editTask_unknown_id_atomic [OF stored noid nosub unknown, of False] first cs
  show ?thesis by simp
qed

text \<open>
  The claim as first stated fails three times on the one-task forest, where 9
  resolves to no stored node.  With updates that set the id to 9, the batch \<open>[0, 9]\<close>
  succeeds and is saved.  With an unconfigured state, the batch fails with
  \<open>TaskStateUnknownError\<close> and not with \<open>TaskNotFoundError\<close>.  With a \<^verbatim>\<open>subtasks\<close> array
  that holds a node with id 9, the id 9 resolves after the first merge, to a node inside
  the array; the second merge makes the array contain itself, and the call fails in
  \<open>saveStorage\<close>.
\<close>

theorem editTask_unknown_id_counterexample:
  "findTaskById 9 (datas oneTaskFile) = None \<and>
   editTask ''u'' [0, 9] (noFields\<lparr>p_id := Some 9\<rparr>) False (storedWorld ''u'' oneTaskFile)
     = (Inr (), saveStorage ''u'' (oneTaskFile\<lparr>datas := [oneTask 9 ''todo'']\<rparr>)
                  (storedWorld ''u'' oneTaskFile)) \<and>
   editTask ''u'' [0, 9] (noFields\<lparr>p_state := Some ''bogus''\<rparr>) False (storedWorld ''u'' oneTaskFile)
     = (Inl (TaskStateUnknownError 0 ''bogus''), storedWorld ''u'' oneTaskFile) \<and>
   editTask ''u'' [0, 9] (noFields\<lparr>p_subtasks := Some [oneTask 9 ''todo'']\<rparr>) False
       (storedWorld ''u'' oneTaskFile)
     = (Inl SaveError, storedWorld ''u'' oneTaskFile)"
  by (simp add: eval_defs findPath.simps)

lemmas add_defs = storedWorld_def freshWorld_def oneTaskFile_def task1File_def oneTask_def noFields_def
  addTask_def loadStorage_def parseStorage_def toJson_def saveStorage_def mutated_def
  findTaskById_Cons modifyTaskById_Cons subs_def validateState_def getDefaultState_def
  DEFAULT_TASK_STATES_def objectAssign_def Let_def extractAllIds_def
  generateTaskId_def generateTaskId_scan.simps newTaskId_def newTaskState_def newTask_def

section \<open>addTask and explicit ids\<close>

text \<open>
  C3.  \<open>addTask\<close> with an explicit id that is in use: the id it returns is the freshly
  allocated one, the id it stores on the new node is the caller's.  On the forest
  with the single id 1, the call with id 1 returns 0 and appends a second node with
  id 1.
\<close>

theorem addTask_explicit_collision:
  "addTask ''u'' (noFields\<lparr>p_id := Some 1, p_name := Some ''X''\<rparr>) None ''02/01/2024''
       (storedWorld ''u'' task1File)
     = (Inr 0,
        saveStorage ''u''
          (task1File\<lparr>datas := [oneTask 1 ''todo'',
              Task (Some 1) (Some ''X'') None None (Some ''02/01/2024'') (Some ''todo'') None]\<rparr>)
          (storedWorld ''u'' task1File))"
  by (simp add: add_defs)

text \<open>
  An explicit id that collides does not make \<open>addTask\<close> fail: on the forest with
  the single id 1, the call with id 1 does not end with \<open>TaskIdDuplicatedError\<close>; it
  returns 0 and changes the stored file.
\<close>

theorem addTask_DuplicateId_counterexample:
  "1 \<in> set (extractAllIds (datas task1File)) \<and>
   fst (addTask ''u'' (noFields\<lparr>p_id := Some 1\<rparr>) None ''02/01/2024''
          (storedWorld ''u'' task1File)) \<noteq> Inl (TaskIdDuplicatedError 1) \<and>
   fst (addTask ''u'' (noFields\<lparr>p_id := Some 1\<rparr>) None ''02/01/2024''
          (storedWorld ''u'' task1File)) = Inr 0 \<and>
   tasksFile (snd (addTask ''u'' (noFields\<lparr>p_id := Some 1\<rparr>) None ''02/01/2024''
          (storedWorld ''u'' task1File))) ''u''
     \<noteq> tasksFile (storedWorld ''u'' task1File) ''u''"
  by (simp add: add_defs)

lemma loadStorage_error: "loadStorage u w = (Inl e, w1) \<Longrightarrow> e = LoadError"
  by (auto simp: loadStorage_def split: option.splits)

lemma addTask_error_cases:
  assumes "fst (addTask u taskData parentId now w) = Inl e"
  shows "e = LoadError \<or> e = TypeError \<or> (\<exists>i s. e = TaskStateUnknownError i s) \<or>
         (\<exists>p. e = TaskNotFoundError p)"
proof (cases "loadStorage u w")
  case (Pair r w1)
  show ?thesis
  proof (cases r)
    case (Inl e')
    with Pair assms have "e = e'" by (simp add: addTask_def)
    with Inl Pair loadStorage_error show ?thesis by blast
  next
    case (Inr p)
    obtain d sh where p: "p = (d, sh)" by (cases p)
    show ?thesis
      using assms Pair Inr p
      by (auto simp: addTask_def Let_def newTaskState_def getDefaultState_def
            split: option.splits sum.splits if_splits list.splits)
  qed
qed

lemma addTask_present:
  assumes "tasksFile w u = Some (toJson d)"
  shows "addTask u taskData parentId now w =
     (let newId = newTaskId taskData (extractAllIds (datas d))
      in (case newTaskState taskData (meta_states d) of
            Inl e \<Rightarrow> (Inl e, w)
          | Inr st \<Rightarrow>
              let task = newTask newId st now taskData;
                  taskState = (case task_state task of Some s \<Rightarrow> s | None \<Rightarrow> [])
              in if \<not> validateState taskState (meta_states d)
                 then (Inl (TaskStateUnknownError newId taskState), w)
                 else
                   (case parentId of
                      Some pid \<Rightarrow>
                        (case modifyTaskById pid (pushSubtask task) (datas d) of
                           None \<Rightarrow> (Inl (TaskNotFoundError pid), w)
                         | Some ds \<Rightarrow> (Inr newId, saveStorage u (d\<lparr>datas := ds\<rparr>) w))
                    | None \<Rightarrow> (Inr newId, saveStorage u (d\<lparr>datas := datas d @ [task]\<rparr>) w))))"
  by (simp add: addTask_def loadStorage_present [OF assms] Let_def split: sum.split option.split)

lemma task_state_newTask:
  "task_state (newTask newId st now taskData) =
     Some (case p_state taskData of Some s \<Rightarrow> s | None \<Rightarrow> st)"
  by (simp add: newTask_def split: option.split)

lemma task_id_newTask:
  "task_id (newTask newId st now taskData) =
     Some (case p_id taskData of Some k \<Rightarrow> k | None \<Rightarrow> newId)"
  by (simp add: newTask_def split: option.split)

lemma task_subtasks_newTask [simp]:
  "task_subtasks (newTask newId st now taskData) = p_subtasks taskData"
  by (simp add: newTask_def split: option.split)

lemma validateState_default:
  "sts \<noteq> [] \<Longrightarrow> getDefaultState sts = Inr (name (hd sts)) \<and> validateState (name (hd sts)) sts"
  by (cases sts) (simp_all add: getDefaultState_def validateState_def)

lemma newTaskState_ok:
  assumes "sts \<noteq> []"
    and "case p_state taskData of Some s \<Rightarrow> validateState s sts | None \<Rightarrow> True"
  shows "\<exists>st. newTaskState taskData sts = Inr st \<and>
              validateState (case p_state taskData of Some s \<Rightarrow> s | None \<Rightarrow> st) sts"
  using assms validateState_default [OF assms(1)]
  by (cases "p_state taskData") (simp_all add: newTaskState_def)

text \<open>
  C4 (as amended).  \<open>addTask\<close> has no forced assignment and never fails with
  \<open>TaskIdDuplicatedError\<close>.  Given an explicit id that is already in the forest, the
  id-assignment step allocates an id with \<open>generateTaskId\<close>, which is not in the
  forest, and the call goes on: with a non-empty state configuration, a valid
  requested state and a parent that resolves, it succeeds and returns the allocated
  id.
\<close>

theorem addTask_collision_allocates:
  "(\<forall>j. fst (addTask u taskData parentId now w) \<noteq> Inl (TaskIdDuplicatedError j)) \<and>
   (tasksFile w u = Some (toJson d) \<and>
    p_id taskData = Some k \<and> k \<in> set (extractAllIds (datas d)) \<and>
    meta_states d \<noteq> [] \<and>
    (case p_state taskData of Some s \<Rightarrow> validateState s (meta_states d) | None \<Rightarrow> True) \<and>
    (case parentId of Some p \<Rightarrow> findTaskById p (datas d) \<noteq> None | None \<Rightarrow> True)
    \<longrightarrow> fst (addTask u taskData parentId now w) = Inr (generateTaskId (extractAllIds (datas d))) \<and>
        generateTaskId (extractAllIds (datas d)) \<notin> set (extractAllIds (datas d)))"
proof (intro conjI allI impI)
  fix j
  show "fst (addTask u taskData parentId now w) \<noteq> Inl (TaskIdDuplicatedError j)"
    using addTask_error_cases [of u taskData parentId now w "TaskIdDuplicatedError j"] by auto
next
  assume h: "tasksFile w u = Some (toJson d) \<and>
    p_id taskData = Some k \<and> k \<in> set (extractAllIds (datas d)) \<and>
    meta_states d \<noteq> [] \<and>
    (case p_state taskData of Some s \<Rightarrow> validateState s (meta_states d) | None \<Rightarrow> True) \<and>
    (case parentId of Some p \<Rightarrow> findTaskById p (datas d) \<noteq> None | None \<Rightarrow> True)"
  then have stored: "tasksFile w u = Some (toJson d)" and pid: "p_id taskData = Some k"
    and coll: "k \<in> set (extractAllIds (datas d))" and ne: "meta_states d \<noteq> []"
    and st: "case p_state taskData of Some s \<Rightarrow> validateState s (meta_states d) | None \<Rightarrow> True"
    and par: "case parentId of Some p \<Rightarrow> findTaskById p (datas d) \<noteq> None | None \<Rightarrow> True"
    by simp_all
  from newTaskState_ok [OF ne st] obtain st0 where
    st0: "newTaskState taskData (meta_states d) = Inr st0"
         "validateState (case p_state taskData of Some s \<Rightarrow> s | None \<Rightarrow> st0) (meta_states d)"
    by blast
  have nid: "newTaskId taskData (extractAllIds (datas d)) = generateTaskId (extractAllIds (datas d))"
    using pid coll by (simp add: newTaskId_def)
  show "fst (addTask u taskData parentId now w) = Inr (generateTaskId (extractAllIds (datas d)))"
  proof (cases parentId)
    case None
    then show ?thesis
      using st0 nid by (simp add: addTask_present [OF stored] Let_def task_state_newTask)
  next
    case (Some p)
    with par have "findTaskById p (datas d) \<noteq> None" by simp
    then obtain ds where "modifyTaskById p
        (pushSubtask (newTask (generateTaskId (extractAllIds (datas d))) st0 now taskData))
        (datas d) = Some ds"
      using modifyTaskById_None_iff by fastforce
    then show ?thesis
      using Some st0 nid by (simp add: addTask_present [OF stored] Let_def task_state_newTask)
  qed
next
  show "generateTaskId (extractAllIds (datas d)) \<notin> set (extractAllIds (datas d))"
    by (rule generateTaskId_fresh)
qed

theorem addTask_collision_allocates_witness:
  "fst (addTask ''u'' (noFields\<lparr>p_id := Some 1, p_state := Some ''done''\<rparr>) (Some 1) ''02/01/2024''
          (storedWorld ''u'' task1File)) = Inr 0"
proof -
  have h: "tasksFile (storedWorld ''u'' task1File) ''u'' = Some (toJson task1File) \<and>
    p_id (noFields\<lparr>p_id := Some 1, p_state := Some ''done''\<rparr>) = Some 1 \<and>
    1 \<in> set (extractAllIds (datas task1File)) \<and>
    meta_states task1File \<noteq> [] \<and>
    (case p_state (noFields\<lparr>p_id := Some 1, p_state := Some ''done''\<rparr>) of
       Some s \<Rightarrow> validateState s (meta_states task1File) | None \<Rightarrow> True) \<and>
    (case Some 1 of Some p \<Rightarrow> findTaskById p (datas task1File) \<noteq> None | None \<Rightarrow> True)"
    by (simp add: task1File_def oneTask_def noFields_def extractAllIds_def validateState_def
          DEFAULT_TASK_STATES_def findTaskById_Cons)
  have g: "generateTaskId (extractAllIds (datas task1File)) = 0"
    by (simp add: task1File_def oneTask_def extractAllIds_def generateTaskId_def
          generateTaskId_scan.simps)
  from addTask_collision_allocates [of "''u''" "noFields\<lparr>p_id := Some 1, p_state := Some ''done''\<rparr>"
      "Some 1" "''02/01/2024''" "storedWorld ''u'' task1File" task1File 1] h g
  show ?thesis by simp
qed


section \<open>UserStorage: saving and backups\<close>

lemma map_fst_unlink: "map fst (unlink f dir) = filter (\<lambda>n. n \<noteq> f) (map fst dir)"
  by (induction dir) (auto simp: unlink_def)

lemma map_fst_fold_unlink:
  "map fst (fold unlink fs dir) = filter (\<lambda>n. n \<notin> set fs) (map fst dir)"
proof (induction fs arbitrary: dir)
  case Nil
  then show ?case by simp
next
  case (Cons f fs)
  have "map fst (fold unlink (f # fs) dir) = filter (\<lambda>n. n \<notin> set fs) (map fst (unlink f dir))"
    using Cons.IH [of "unlink f dir"] by simp
  also have "\<dots> = filter (\<lambda>n. n \<notin> set (f # fs)) (map fst dir)"
    by (simp add: map_fst_unlink conj_commute)
  finally show ?case .
qed

lemma filter_notin_drop:
  "distinct xs \<Longrightarrow> filter (\<lambda>x. x \<notin> set (drop k xs)) xs = take k xs"
proof -
  assume d: "distinct xs"
  have disj: "set (take k xs) \<inter> set (drop k xs) = {}"
    using d by (rule set_take_disj_set_drop_if_distinct) simp
  have "filter (\<lambda>x. x \<notin> set (drop k xs)) (take k xs @ drop k xs) =
        filter (\<lambda>x. x \<notin> set (drop k xs)) (take k xs) @
        filter (\<lambda>x. x \<notin> set (drop k xs)) (drop k xs)"
    by (rule filter_append)
  then have split: "filter (\<lambda>x. x \<notin> set (drop k xs)) xs =
        filter (\<lambda>x. x \<notin> set (drop k xs)) (take k xs) @
        filter (\<lambda>x. x \<notin> set (drop k xs)) (drop k xs)"
    by (simp only: append_take_drop_id)
  have keep: "filter (\<lambda>x. x \<notin> set (drop k xs)) (take k xs) = take k xs"
    using disj by (intro filter_True) auto
  have gone: "filter (\<lambda>x. x \<notin> set (drop k xs)) (drop k xs) = []"
    by (intro filter_False) auto
  show ?thesis
    by (simp only: split keep gone append_Nil2)
qed

lemma listBackups_cleanupBackups:
  assumes "distinct (map fst (backupDir w u))"
  shows "listBackups u (cleanupBackups keepCount u w) = take keepCount (listBackups u w)"
proof (cases "length (listBackups u w) > keepCount")
  case False
  then show ?thesis by (simp add: cleanupBackups_def)
next
  case True
  define P where "P = (\<lambda>f. startsWith ''tasks-'' f \<and> endsWith ''.json'' f)"
  define names where "names = map fst (backupDir w u)"
  define bs where "bs = listBackups u w"
  have bs: "bs = rev (sort (filter P names))"
    by (simp add: bs_def listBackups_def P_def names_def)
  have dbs: "distinct bs"
    using assms by (simp add: bs names_def)
  have "listBackups u (cleanupBackups keepCount u w) =
        rev (sort (filter P (filter (\<lambda>n. n \<notin> set (drop keepCount bs)) names)))"
    using True
    by (simp add: cleanupBackups_def listBackups_def map_fst_fold_unlink P_def names_def bs_def Let_def)
  also have "\<dots> = rev (sort (filter (\<lambda>n. n \<notin> set (drop keepCount bs)) (filter P names)))"
    by (simp add: conj_commute)
  also have "\<dots> = rev (filter (\<lambda>n. n \<notin> set (drop keepCount bs)) (sort (filter P names)))"
    by (simp only: filter_sort)
  also have "\<dots> = filter (\<lambda>n. n \<notin> set (drop keepCount bs)) (rev (sort (filter P names)))"
    by (simp only: rev_filter)
  also have "\<dots> = filter (\<lambda>n. n \<notin> set (drop keepCount bs)) bs"
    by (simp only: bs)
  also have "\<dots> = take keepCount bs"
    using dbs by (rule filter_notin_drop)
  finally show ?thesis by (simp add: bs_def)
qed

lemma map_of_writeFile: "map_of (writeFile f c dir) f = Some c"
  by (simp add: writeFile_def)

text \<open>
  C1 (as amended).  \<open>saveStorage\<close> replaces the primary file by the serialised data
  and leaves the backup directory as it is: it writes no backup and deletes none.
  Backups are the work of two separate operations.  \<open>createBackup\<close> copies the
  primary file, when there is one, into the backup directory under the name it
  returns (\<^verbatim>\<open>tasks-<stamp>.json\<close>).  \<open>cleanupBackups\<close> leaves the \<open>keepCount\<close>
  (by default 10) task backups that are greatest in name order and deletes the
  others.
\<close>

theorem saveStorage_leaves_backups:
  "backupDir (saveStorage u d w) = backupDir w \<and>
   tasksFile (saveStorage u d w) u = Some (toJson d) \<and>
   (tasksFile w u = Some c \<longrightarrow>
      map_of (backupDir (snd (createBackup u stamp w)) u) (fst (createBackup u stamp w)) = Some c) \<and>
   (distinct (map fst (backupDir w u)) \<longrightarrow>
      listBackups u (cleanupBackups keepCount u w) = take keepCount (listBackups u w))"
  by (simp add: saveStorage_def createBackup_def Let_def map_of_writeFile
        listBackups_cleanupBackups)

lemma listBackups_twoBackups:
  "listBackups ''u'' twoBackups =
     [''tasks-2024-01-02T10-00-00-000Z.json'', ''tasks-2024-01-01T10-00-00-000Z.json'']"
  by code_simp

theorem saveStorage_leaves_backups_witness:
  "tasksFile twoBackups ''u'' = Some (toJson oneTaskFile) \<and>
   distinct (map fst (backupDir twoBackups ''u'')) \<and>
   map_of (backupDir (snd (createBackup ''u'' ''2024-01-03T10-00-00-000Z'' twoBackups)) ''u'')
          ''tasks-2024-01-03T10-00-00-000Z.json'' = Some (toJson oneTaskFile) \<and>
   listBackups ''u'' (cleanupBackups 1 ''u'' twoBackups) = [''tasks-2024-01-02T10-00-00-000Z.json'']"
proof -
  have f: "tasksFile twoBackups ''u'' = Some (toJson oneTaskFile)"
    by (simp add: twoBackups_def)
  have d: "distinct (map fst (backupDir twoBackups ''u''))"
    by (simp add: twoBackups_def)
  have n: "fst (createBackup ''u'' ''2024-01-03T10-00-00-000Z'' twoBackups)
             = ''tasks-2024-01-03T10-00-00-000Z.json''"
    by (simp add: createBackup_def Let_def)
  note th = saveStorage_leaves_backups [of "''u''" oneTaskFile twoBackups "toJson oneTaskFile"
      "''2024-01-03T10-00-00-000Z''" 1]
  from th f n have b: "map_of (backupDir (snd (createBackup ''u'' ''2024-01-03T10-00-00-000Z'' twoBackups)) ''u'')
          ''tasks-2024-01-03T10-00-00-000Z.json'' = Some (toJson oneTaskFile)"
    by simp
  from th d have "listBackups ''u'' (cleanupBackups 1 ''u'' twoBackups) = take 1 (listBackups ''u'' twoBackups)"
    by blast
  then have c: "listBackups ''u'' (cleanupBackups 1 ''u'' twoBackups) = [''tasks-2024-01-02T10-00-00-000Z.json'']"
    by (simp add: listBackups_twoBackups)
  from f d b c show ?thesis by blast
qed

text \<open>
  After a save over an existing primary file the backup directory is as empty as
  before: no copy of the pre-save file is placed there.
\<close>

theorem saveStorage_backup_counterexample:
  "tasksFile (storedWorld ''u'' oneTaskFile) ''u'' = Some (toJson oneTaskFile) \<and>
   backupDir (saveStorage ''u'' task1File (storedWorld ''u'' oneTaskFile)) ''u'' = [] \<and>
   listBackups ''u'' (saveStorage ''u'' task1File (storedWorld ''u'' oneTaskFile)) = []"
  by (simp add: storedWorld_def freshWorld_def saveStorage_def listBackups_def)


section \<open>incrementTask walks the state sequence\<close>



lemma incrementTask_present:
  "tasksFile w u = Some (toJson d) \<Longrightarrow>
   incrementTask u taskIds recursive w = incrementTask_loop u d recursive taskIds w"
  by (simp add: incrementTask_def loadStorage_present)








section \<open>loadStorage and the default object\<close>

text \<open>
  What holds of \<open>loadStorage\<close>: a file that exists and lacks \<^verbatim>\<open>meta.states\<close> or
  \<^verbatim>\<open>datas\<close> as arrays makes it fail and changes nothing; a missing file makes it
  write and return the current value of the default object, which is the default
  three states with an empty forest as long as nothing has changed that object.
\<close>

lemma loadStorage_missing:
  "tasksFile w u = None \<Longrightarrow>
   loadStorage u w =
     (Inr (defaultData w, True), w\<lparr>tasksFile := (tasksFile w)(u := Some (toJson (defaultData w)))\<rparr>)"
  by (simp add: loadStorage_def initialize_def)

lemma loadStorage_missing_pristine:
  assumes "tasksFile w u = None" and "defaultData w = DEFAULT_STORAGE_DATA"
  shows "fst (loadStorage u w) = Inr (DEFAULT_STORAGE_DATA, True)"
    and "tasksFile (snd (loadStorage u w)) u = Some (toJson DEFAULT_STORAGE_DATA)"
  using assms by (simp_all add: loadStorage_missing)

lemma parseStorage_Some_iff:
  "parseStorage c = Some d \<longleftrightarrow> c = Parsed (Some (IsArray (meta_states d))) (IsArray (datas d))"
  by (cases d) (auto simp: parseStorage_def split: fileContent.splits option.splits jsonField.splits)

lemma loadStorage_malformed:
  assumes "tasksFile w u = Some c"
    and "\<not> (\<exists>sts tasks. c = Parsed (Some (IsArray sts)) (IsArray tasks))"
  shows "loadStorage u w = (Inl LoadError, w)"
proof -
  have "parseStorage c = None"
  proof (cases "parseStorage c")
    case None
    then show ?thesis .
  next
    case (Some d)
    then have "c = Parsed (Some (IsArray (meta_states d))) (IsArray (datas d))"
      by (simp add: parseStorage_Some_iff)
    with assms(2) show ?thesis by blast
  qed
  with assms(1) show ?thesis by (simp add: loadStorage_def)
qed

text \<open>
  C8.  In a process that starts with no data file, \<open>addTask\<close> for user alice loads
  the shared default object, pushes the new task into its \<^verbatim>\<open>datas\<close> array and saves.
  The data file of user bob is still missing; \<open>loadStorage\<close> for bob then returns,
  and writes to bob's file, a forest that holds alice's task instead of the empty one.
\<close>

theorem loadStorage_default_shared:
  "tasksFile freshWorld ''alice'' = None \<and>
   tasksFile (snd (addTask ''alice'' (noFields\<lparr>p_name := Some ''A''\<rparr>) None ''01/01/2024'' freshWorld))
     ''bob'' = None \<and>
   fst (loadStorage ''bob''
          (snd (addTask ''alice'' (noFields\<lparr>p_name := Some ''A''\<rparr>) None ''01/01/2024'' freshWorld)))
     = Inr (\<lparr>meta_states = DEFAULT_TASK_STATES,
              datas = [Task (Some 0) (Some ''A'') None None (Some ''01/01/2024'') (Some ''todo'') None]\<rparr>,
            True) \<and>
   tasksFile (snd (loadStorage ''bob''
          (snd (addTask ''alice'' (noFields\<lparr>p_name := Some ''A''\<rparr>) None ''01/01/2024'' freshWorld))))
     ''bob''
     = Some (toJson \<lparr>meta_states = DEFAULT_TASK_STATES,
              datas = [Task (Some 0) (Some ''A'') None None (Some ''01/01/2024'') (Some ''todo'') None]\<rparr>)"
  by (simp add: add_defs initialize_def DEFAULT_STORAGE_DATA_def)


section \<open>deleteTask and moveTask\<close>

lemma findIndex_Some:
  "findIndex P xs = Some k \<Longrightarrow> k < length xs \<and> P (xs ! k)"
proof (induction xs arbitrary: k)
  case Nil
  then show ?case by simp
next
  case (Cons x xs)
  show ?case
  proof (cases "P x")
    case True
    with Cons.prems show ?thesis by simp
  next
    case False
    with Cons.prems obtain k' where "findIndex P xs = Some k'" "k = Suc k'"
      by (cases "findIndex P xs") simp_all
    with Cons.IH [of k'] show ?thesis by simp
  qed
qed

lemma findIndex_None_iff: "findIndex P xs = None \<longleftrightarrow> (\<forall>x \<in> set xs. \<not> P x)"
  by (induction xs) simp_all

lemma splice1_ids:
  assumes "k < length xs"
  shows "mset (extractAllIds xs) =
         mset (extractAllIds (splice1 k xs)) + mset (extractFromTask (xs ! k))"
proof -
  have "xs = take k xs @ xs ! k # drop (Suc k) xs"
    using assms by (rule id_take_nth_drop)
  then have "extractAllIds xs = extractAllIds (take k xs @ xs ! k # drop (Suc k) xs)"
    by simp
  then show ?thesis
    by (simp add: splice1_def extractAllIds_Cons')
qed

lemma findTaskById_top_level:
  "distinct (extractAllIds ss) \<Longrightarrow> findIndex (\<lambda>t. task_id t = Some i) ss = Some k \<Longrightarrow>
   findTaskById i ss = Some (ss ! k)"
proof (induction ss arbitrary: k)
  case Nil
  then show ?case by simp
next
  case (Cons s0 rest)
  show ?case
  proof (cases "task_id s0 = Some i")
    case True
    with Cons.prems show ?thesis by (simp add: findTaskById_Cons)
  next
    case False
    with Cons.prems(2) obtain k' where
      k': "findIndex (\<lambda>t. task_id t = Some i) rest = Some k'" "k = Suc k'"
      by (cases "findIndex (\<lambda>t. task_id t = Some i) rest") simp_all
    from Cons.prems(1) have d: "distinct (extractAllIds rest)"
      and disj: "set (extractFromTask s0) \<inter> set (extractAllIds rest) = {}"
      by (simp_all add: extractAllIds_Cons')
    have "findTaskById i rest = Some (rest ! k')"
      using Cons.IH [OF d k'(1)] .
    then have "i \<in> set (extractAllIds rest)"
      using findTaskById_None_iff [of i rest] by simp
    with disj have "i \<notin> set (extractFromTask s0)" by blast
    then have "i \<notin> set (extractAllIds (subs s0))"
      by (simp add: extractFromTask_eq)
    then have "findTaskById i (subs s0) = None"
      by (simp add: findTaskById_None_iff)
    with False \<open>findTaskById i rest = Some (rest ! k')\<close> k'(2) show ?thesis
      by (simp add: findTaskById_Cons)
  qed
qed

lemma removeFromSubtasks_Cons_None:
  "task_subtasks t = None \<Longrightarrow>
   removeFromSubtasks (t # ts) i = map_option ((#) t) (removeFromSubtasks ts i)"
  by simp

lemma removeFromSubtasks_Cons_Some:
  "task_subtasks t = Some ss \<Longrightarrow>
   removeFromSubtasks (t # ts) i =
     (case findIndex (\<lambda>subtask. task_id subtask = Some i) ss of
        Some k \<Rightarrow> Some (setSubtasks (Some (splice1 k ss)) t # ts)
      | None \<Rightarrow>
          (case removeFromSubtasks ss i of
             Some ss' \<Rightarrow> Some (setSubtasks (Some ss') t # ts)
           | None \<Rightarrow> map_option ((#) t) (removeFromSubtasks ts i)))"
  by simp

declare removeFromSubtasks.simps(2) [simp del]

lemma subs_Some: "task_subtasks t = Some ss \<Longrightarrow> subs t = ss"
  by (simp add: subs_def)

lemma subs_None: "task_subtasks t = None \<Longrightarrow> subs t = []"
  by (simp add: subs_def)

lemma removeFromSubtasks_mem:
  "removeFromSubtasks ds i = Some ds' \<Longrightarrow> i \<in> set (extractAllIds ds)"
proof (induction ds arbitrary: ds' rule: forest_induct)
  case Nil
  then show ?case by simp
next
  case (Cons t ts)
  show ?case
  proof (cases "task_subtasks t")
    case None
    with Cons.prems obtain ts' where "removeFromSubtasks ts i = Some ts'"
      by (auto simp: removeFromSubtasks_Cons_None)
    from Cons.IH(2) [OF this] show ?thesis by (simp add: extractAllIds_Cons')
  next
    case (Some ss)
    note ss = subs_Some [OF Some]
    show ?thesis
    proof (cases "findIndex (\<lambda>subtask. task_id subtask = Some i) ss")
      case (Some k)
      from findIndex_Some [OF Some] have "k < length ss" "task_id (ss ! k) = Some i" by simp_all
      then have "i \<in> set (extractFromTask (ss ! k))"
        by (simp add: extractFromTask_eq)
      moreover have "mset (extractAllIds ss) =
          mset (extractAllIds (splice1 k ss)) + mset (extractFromTask (ss ! k))"
        using \<open>k < length ss\<close> by (rule splice1_ids)
      ultimately have "i \<in> set (extractAllIds ss)"
        by (metis UnCI set_mset_mset set_mset_union)
      then show ?thesis by (simp add: extractAllIds_Cons ss)
    next
      case None
      show ?thesis
      proof (cases "removeFromSubtasks ss i")
        case (Some ss')
        from Cons.IH(1) [unfolded ss, OF Some] show ?thesis
          by (simp add: extractAllIds_Cons ss)
      next
        case rn: None
        with None \<open>task_subtasks t = Some ss\<close> Cons.prems obtain ts' where
          "removeFromSubtasks ts i = Some ts'"
          by (auto simp: removeFromSubtasks_Cons_Some)
        from Cons.IH(2) [OF this] show ?thesis by (simp add: extractAllIds_Cons')
      qed
    qed
  qed
qed

lemma removeFromSubtasks_found:
  "distinct (extractAllIds ds) \<Longrightarrow> findTaskById i ds = Some t \<Longrightarrow>
   \<forall>t0 \<in> set ds. task_id t0 \<noteq> Some i \<Longrightarrow>
   \<exists>ds'. removeFromSubtasks ds i = Some ds' \<and>
         mset (extractAllIds ds) = mset (extractAllIds ds') + mset (extractFromTask t)"
proof (induction ds rule: forest_induct)
  case Nil
  then show ?case by simp
next
  case (Cons t0 ts)
  from Cons.prems(3) have t0: "task_id t0 \<noteq> Some i"
    and tsn: "\<forall>x \<in> set ts. task_id x \<noteq> Some i" by simp_all
  from Cons.prems(1) have dsub: "distinct (extractAllIds (subs t0))"
    and dts: "distinct (extractAllIds ts)"
    by (simp_all add: extractAllIds_Cons)
  show ?case
  proof (cases "findTaskById i (subs t0)")
    case (Some r)
    with t0 Cons.prems(2) have f: "findTaskById i (subs t0) = Some t"
      by (simp add: findTaskById_Cons)
    then have "subs t0 \<noteq> []" by auto
    then obtain ss where sub: "task_subtasks t0 = Some ss"
      by (cases "task_subtasks t0") (simp_all add: subs_def)
    note ss = subs_Some [OF sub]
    show ?thesis
    proof (cases "findIndex (\<lambda>subtask. task_id subtask = Some i) ss")
      case (Some k)
      from findIndex_Some [OF Some] have k: "k < length ss" by simp
      have "findTaskById i ss = Some (ss ! k)"
        using dsub Some unfolding ss by (rule findTaskById_top_level)
      with f ss have tk: "t = ss ! k" by simp
      have r: "removeFromSubtasks (t0 # ts) i = Some (setSubtasks (Some (splice1 k ss)) t0 # ts)"
        using Some by (simp add: removeFromSubtasks_Cons_Some [OF sub])
      have "mset (extractAllIds ss) =
            mset (extractAllIds (splice1 k ss)) + mset (extractFromTask (ss ! k))"
        using k by (rule splice1_ids)
      then have "mset (extractAllIds (t0 # ts)) =
                 mset (extractAllIds (setSubtasks (Some (splice1 k ss)) t0 # ts)) +
                 mset (extractFromTask t)"
        by (simp add: extractAllIds_Cons ss tk)
      with r show ?thesis by blast
    next
      case None
      then have "\<forall>x \<in> set (subs t0). task_id x \<noteq> Some i"
        by (simp add: findIndex_None_iff ss)
      from Cons.IH(1) [OF dsub f this] obtain ss' where
        ss': "removeFromSubtasks ss i = Some ss'"
             "mset (extractAllIds ss) = mset (extractAllIds ss') + mset (extractFromTask t)"
        unfolding ss by blast
      have r: "removeFromSubtasks (t0 # ts) i = Some (setSubtasks (Some ss') t0 # ts)"
        using None ss'(1) by (simp add: removeFromSubtasks_Cons_Some [OF sub])
      have "mset (extractAllIds (t0 # ts)) =
            mset (extractAllIds (setSubtasks (Some ss') t0 # ts)) + mset (extractFromTask t)"
        using ss'(2) by (simp add: extractAllIds_Cons ss)
      with r show ?thesis by blast
    qed
  next
    case None
    with t0 Cons.prems(2) have f: "findTaskById i ts = Some t"
      by (simp add: findTaskById_Cons)
    from Cons.IH(2) [OF dts f tsn] obtain ts' where
      ts': "removeFromSubtasks ts i = Some ts'"
           "mset (extractAllIds ts) = mset (extractAllIds ts') + mset (extractFromTask t)"
      by blast
    have notin: "i \<notin> set (extractAllIds (subs t0))"
      using None by (simp add: findTaskById_None_iff)
    have r: "removeFromSubtasks (t0 # ts) i = Some (t0 # ts')"
    proof (cases "task_subtasks t0")
      case None
      then show ?thesis using ts'(1) by (simp add: removeFromSubtasks_Cons_None)
    next
      case (Some ss)
      note ss = subs_Some [OF Some]
      have "findIndex (\<lambda>subtask. task_id subtask = Some i) ss = None"
      proof (cases "findIndex (\<lambda>subtask. task_id subtask = Some i) ss")
        case None
        then show ?thesis .
      next
        case (Some k)
        from findIndex_Some [OF Some] have "k < length ss" "task_id (ss ! k) = Some i" by simp_all
        then have "i \<in> set (extractFromTask (ss ! k))" "ss ! k \<in> set ss"
          by (simp_all add: extractFromTask_eq)
        then have "i \<in> set (extractAllIds ss)"
          by (auto simp: extractAllIds_def)
        with notin ss show ?thesis by simp
      qed
      moreover have "removeFromSubtasks ss i = None"
      proof (cases "removeFromSubtasks ss i")
        case None
        then show ?thesis .
      next
        case (Some ss')
        from removeFromSubtasks_mem [OF Some] notin ss show ?thesis by simp
      qed
      ultimately show ?thesis
        using ts'(1) by (simp add: removeFromSubtasks_Cons_Some [OF Some])
    qed
    have "mset (extractAllIds (t0 # ts)) =
          mset (extractAllIds (t0 # ts')) + mset (extractFromTask t)"
      using ts'(2) by (simp add: extractAllIds_Cons')
    with r show ?thesis by blast
  qed
qed

lemma removeTask_found:
  assumes d: "distinct (extractAllIds ds)" and f: "findTaskById i ds = Some t"
  shows "\<exists>ds'. removeTask i ds = Some ds' \<and>
           mset (extractAllIds ds) = mset (extractAllIds ds') + mset (extractFromTask t)"
proof (cases "findIndex (\<lambda>task. task_id task = Some i) ds")
  case (Some k)
  from findIndex_Some [OF Some] have k: "k < length ds" by simp
  have "findTaskById i ds = Some (ds ! k)"
    using d Some by (rule findTaskById_top_level)
  with f have "t = ds ! k" by simp
  with splice1_ids [OF k] Some show ?thesis
    by (simp add: removeTask_def)
next
  case None
  then have "\<forall>t0 \<in> set ds. task_id t0 \<noteq> Some i"
    by (simp add: findIndex_None_iff)
  from removeFromSubtasks_found [OF d f this] None show ?thesis
    by (simp add: removeTask_def)
qed

lemma removeTask_mem: "removeTask i ds = Some ds' \<Longrightarrow> i \<in> set (extractAllIds ds)"
proof (cases "findIndex (\<lambda>task. task_id task = Some i) ds")
  case None
  assume "removeTask i ds = Some ds'"
  with None have "removeFromSubtasks ds i = Some ds'" by (simp add: removeTask_def)
  then show ?thesis by (rule removeFromSubtasks_mem)
next
  case (Some k)
  from findIndex_Some [OF Some] have "k < length ds" "task_id (ds ! k) = Some i" by simp_all
  then have "i \<in> set (extractFromTask (ds ! k))" "ds ! k \<in> set ds"
    by (simp_all add: extractFromTask_eq)
  then show ?thesis by (auto simp: extractAllIds_def)
qed

lemma deleteTask_present:
  "tasksFile w u = Some (toJson d) \<Longrightarrow>
   deleteTask u taskIds w =
     (case deleteTask_loop taskIds (datas d) of
        (Some e, tasks) \<Rightarrow> (Inl e, w)
      | (None, tasks) \<Rightarrow> (Inr (), saveStorage u (d\<lparr>datas := tasks\<rparr>) w))"
  by (simp add: deleteTask_def loadStorage_present split: prod.split option.split)

lemma mset_split_distinct:
  assumes "mset xs = mset ys + mset zs" and "distinct xs"
  shows "distinct ys" and "set ys \<inter> set zs = {}" and "set xs = set ys \<union> set zs"
proof -
  have eq: "mset xs = mset (ys @ zs)" using assms(1) by simp
  then have "distinct (ys @ zs)"
    using assms(2) mset_eq_imp_distinct_iff by blast
  then show "distinct ys" and "set ys \<inter> set zs = {}" by simp_all
  from eq have "set xs = set (ys @ zs)" by (rule mset_eq_setD)
  then show "set xs = set ys \<union> set zs" by simp
qed

text \<open>
  C10 (as amended).  When the stored forest has unique ids and the new parent is the
  first task of the batch or one of its descendants, \<open>moveTask\<close> saves the forest
  without that task's subtree and then fails with \<open>TaskNotFoundError\<close> for the new
  parent: the data file then holds the forest that remains, in which the moved task,
  its descendants and the new parent resolve no more, and the other ids are what they
  were.  The same holds of the loop whenever it reaches such an id, whatever the
  forest loaded before the loop was.
\<close>

theorem moveTask_into_own_subtree:
  assumes stored: "tasksFile w u = Some (toJson d)"
    and uniq: "distinct (extractAllIds (datas d))"
    and found: "findTaskById taskId (datas d) = Some t"
    and inside: "newParentId \<in> set (extractFromTask t)"
  shows "\<exists>ds. removeTask taskId (datas d) = Some ds \<and>
           moveTask u (taskId # rest) newParentId w =
             (Inl (TaskNotFoundError newParentId), saveStorage u (d\<lparr>datas := ds\<rparr>) w) \<and>
           tasksFile (snd (moveTask u (taskId # rest) newParentId w)) u
             = Some (toJson (d\<lparr>datas := ds\<rparr>)) \<and>
           (\<forall>stale c. findTaskById taskId stale = Some c \<longrightarrow>
              moveTask_loop u newParentId stale (taskId # rest) w =
                (Inl (TaskNotFoundError newParentId), saveStorage u (d\<lparr>datas := ds\<rparr>) w)) \<and>
           (\<forall>j \<in> set (extractFromTask t). findTaskById j ds = None) \<and>
           (\<forall>j \<in> set (extractFromTask t).
              fst (getTask u j (snd (moveTask u (taskId # rest) newParentId w)))
                = Inl (TaskNotFoundError j)) \<and>
           set (extractAllIds ds) = set (extractAllIds (datas d)) - set (extractFromTask t)"
proof -
  from removeTask_found [OF uniq found] obtain ds where
    rm: "removeTask taskId (datas d) = Some ds"
    and ms: "mset (extractAllIds (datas d)) = mset (extractAllIds ds) + mset (extractFromTask t)"
    by blast
  note sp = mset_split_distinct [OF ms uniq]
  have gone: "\<forall>j \<in> set (extractFromTask t). findTaskById j ds = None"
    using sp(2) by (auto simp: findTaskById_None_iff)
  have rest_ids: "set (extractAllIds ds) = set (extractAllIds (datas d)) - set (extractFromTask t)"
    using sp(2,3) by blast
  have "newParentId \<in> set (extractAllIds (datas d))"
    using inside sp(3) by simp
  then obtain p where p: "findTaskById newParentId (datas d) = Some p"
    using findTaskById_None_iff [of newParentId "datas d"]
    by (cases "findTaskById newParentId (datas d)") simp_all
  let ?w1 = "saveStorage u (d\<lparr>datas := ds\<rparr>) w"
  have del: "deleteTask u [taskId] w = (Inr (), ?w1)"
    using rm by (simp add: deleteTask_present [OF stored])
  have load: "loadStorage u ?w1 = (Inr (d\<lparr>datas := ds\<rparr>, False), ?w1)"
    by (rule loadStorage_present) simp
  have "findTaskById newParentId ds = None"
    using gone inside by blast
  then have nomod: "\<And>f. modifyTaskById newParentId f ds = None"
    by (simp add: modifyTaskById_None_iff)
  have loop: "\<forall>stale c. findTaskById taskId stale = Some c \<longrightarrow>
                moveTask_loop u newParentId stale (taskId # rest) w =
                  (Inl (TaskNotFoundError newParentId), ?w1)"
    using del load nomod by simp
  with found have "moveTask_loop u newParentId (datas d) (taskId # rest) w =
                     (Inl (TaskNotFoundError newParentId), ?w1)"
    by blast
  with p have mv: "moveTask u (taskId # rest) newParentId w =
                     (Inl (TaskNotFoundError newParentId), ?w1)"
    by (simp add: moveTask_def loadStorage_present [OF stored])
  have saved: "tasksFile (snd (moveTask u (taskId # rest) newParentId w)) u
                 = Some (toJson (d\<lparr>datas := ds\<rparr>))"
    by (simp add: mv)
  have reread: "\<forall>j \<in> set (extractFromTask t).
                  fst (getTask u j (snd (moveTask u (taskId # rest) newParentId w)))
                    = Inl (TaskNotFoundError j)"
  proof
    fix j assume "j \<in> set (extractFromTask t)"
    with gone have "findTaskById j ds = None" by blast
    then have "getTask u j ?w1 = (Inl (TaskNotFoundError j), ?w1)"
      by (simp add: getTask_present [of _ u "d\<lparr>datas := ds\<rparr>"])
    then show "fst (getTask u j (snd (moveTask u (taskId # rest) newParentId w)))
                 = Inl (TaskNotFoundError j)"
      by (simp add: mv)
  qed
  show ?thesis
    by (intro exI [of _ ds] conjI rm mv saved loop gone reread rest_ids)
qed

theorem moveTask_into_own_subtree_witness:
  "distinct (extractAllIds (datas nestedFile)) \<and>
   moveTask ''u'' [0] 2 (storedWorld ''u'' nestedFile) =
     (Inl (TaskNotFoundError 2),
      saveStorage ''u'' (nestedFile\<lparr>datas := [oneTask 3 ''done'']\<rparr>) (storedWorld ''u'' nestedFile)) \<and>
   tasksFile (snd (moveTask ''u'' [0] 2 (storedWorld ''u'' nestedFile))) ''u''
     = Some (toJson (nestedFile\<lparr>datas := [oneTask 3 ''done'']\<rparr>)) \<and>
   findTaskById 0 [oneTask 3 ''done''] = None \<and>
   findTaskById 1 [oneTask 3 ''done''] = None \<and>
   findTaskById 2 [oneTask 3 ''done''] = None"
proof -
  let ?t = "Task (Some 0) (Some ''Parent'') None
                (Some [Task (Some 1) (Some ''Child'') None
                         (Some [oneTask 2 ''todo'']) (Some ''01/01/2024'') (Some ''todo'') None])
                (Some ''01/01/2024'') (Some ''todo'') None"
  have stored: "tasksFile (storedWorld ''u'' nestedFile) ''u'' = Some (toJson nestedFile)"
    by simp
  have uniq: "distinct (extractAllIds (datas nestedFile))"
    by (simp add: nestedFile_def oneTask_def extractAllIds_def)
  have found: "findTaskById 0 (datas nestedFile) = Some ?t"
    by (simp add: nestedFile_def findTaskById_Cons)
  have inside: "2 \<in> set (extractFromTask ?t)"
    by (simp add: oneTask_def)
  have rm: "removeTask 0 (datas nestedFile) = Some [oneTask 3 ''done'']"
    by (simp add: nestedFile_def removeTask_def splice1_def)
  from moveTask_into_own_subtree [OF stored uniq found inside, of "[]"] rm
  have mv: "moveTask ''u'' [0] 2 (storedWorld ''u'' nestedFile) =
     (Inl (TaskNotFoundError 2),
      saveStorage ''u'' (nestedFile\<lparr>datas := [oneTask 3 ''done'']\<rparr>) (storedWorld ''u'' nestedFile))"
    and saved: "tasksFile (snd (moveTask ''u'' [0] 2 (storedWorld ''u'' nestedFile))) ''u''
                  = Some (toJson (nestedFile\<lparr>datas := [oneTask 3 ''done'']\<rparr>))"
    and gone: "\<forall>j \<in> set (extractFromTask ?t). findTaskById j [oneTask 3 ''done''] = None"
    by auto
  have "0 \<in> set (extractFromTask ?t)" "1 \<in> set (extractFromTask ?t)"
    by (simp_all add: oneTask_def)
  with gone inside have "findTaskById 0 [oneTask 3 ''done''] = None"
    "findTaskById 1 [oneTask 3 ''done''] = None" "findTaskById 2 [oneTask 3 ''done''] = None"
    by blast+
  with uniq mv saved show ?thesis by blast
qed

text \<open>
  Without unique ids the claim fails: in the forest where task 0 has a child with id 1
  and a second root has id 1 too, the new parent 1 lies in the subtree of task 0, yet
  \<open>moveTask\<close> of task 0 under 1 succeeds; after the deletion the id 1 resolves to the
  second root, which receives the copy, and no task is lost.  And a batch that fails
  at an earlier id never reaches the deletion: on the forest with unique ids, the
  batch \<open>[99, 0]\<close> with the new parent 2, a descendant of task 0, fails at 99 and
  leaves the stored file as it was.
\<close>

theorem moveTask_into_own_subtree_counterexample:
  "(\<exists>t. findTaskById 0 (datas dupFile) = Some t \<and> 1 \<in> set (extractFromTask t)) \<and>
   moveTask ''u'' [0] 1 (storedWorld ''u'' dupFile) =
     (Inr (),
      saveStorage ''u''
        (dupFile\<lparr>datas :=
           [Task (Some 1) (Some ''A'') None
              (Some [Task (Some 0) (Some ''Parent'') None (Some [oneTask 1 ''todo''])
                       (Some ''01/01/2024'') (Some ''todo'') None])
              (Some ''01/01/2024'') (Some ''done'') None]\<rparr>)
        (saveStorage ''u'' (dupFile\<lparr>datas := [oneTask 1 ''done'']\<rparr>) (storedWorld ''u'' dupFile))) \<and>
   (\<exists>t. findTaskById 0 (datas nestedFile) = Some t \<and> 2 \<in> set (extractFromTask t)) \<and>
   moveTask ''u'' [99, 0] 2 (storedWorld ''u'' nestedFile)
     = (Inl (TaskNotFoundError 99), storedWorld ''u'' nestedFile)"
  by (simp add: storedWorld_def freshWorld_def dupFile_def nestedFile_def oneTask_def
        loadStorage_def parseStorage_def toJson_def saveStorage_def mutated_def
        findTaskById_Cons modifyTaskById_Cons Let_def setSubtasks_def pushSubtask_def
        removeTask_def splice1_def moveTask_def deleteTask_def subs_def)

section \<open>Unique ids\<close>

lemma storedUnique_stored:
  "tasksFile w u = Some (toJson d) \<Longrightarrow> storedUnique u w = distinct (extractAllIds (datas d))"
  by (simp add: storedUnique_def)

lemma storedUnique_saved [simp]:
  "storedUnique u (saveStorage u d w) = distinct (extractAllIds (datas d))"
  by (simp add: storedUnique_def)

lemma storedUniqueE:
  assumes "storedUnique u w"
  obtains d where "tasksFile w u = Some (toJson d)" and "distinct (extractAllIds (datas d))"
proof -
  from assms obtain c where c: "tasksFile w u = Some c"
    by (cases "tasksFile w u") (simp_all add: storedUnique_def)
  with assms obtain d where d: "parseStorage c = Some d"
    by (cases "parseStorage c") (simp_all add: storedUnique_def)
  then have "c = toJson d"
    by (simp add: parseStorage_Some_iff toJson_def)
  moreover have "distinct (extractAllIds (datas d))"
    using assms c d by (simp add: storedUnique_def)
  ultimately show ?thesis using c that by simp
qed

subsection \<open>editTask\<close>

lemma editTask_loop_ids:
  assumes noid: "p_id upd = None" and nosub: "p_subtasks upd = None"
  shows "editTask_loop sts upd r held ids ds = (res, ds') \<Longrightarrow>
         mset (extractAllIds ds') = mset (extractAllIds ds)"
proof (induction ids arbitrary: ds held)
  case Nil
  then show ?case by simp
next
  case (Cons i rest)
  show ?case
  proof (cases "findTaskById i ds")
    case None
    with Cons.prems show ?thesis by simp
  next
    case (Some t)
    show ?thesis
    proof (cases "checkState i upd sts")
      case (Some e)
      with \<open>findTaskById i ds = Some t\<close> Cons.prems show ?thesis by simp
    next
      case None
      show ?thesis
      proof (cases "modifyTaskById i (applyUpdates r upd) ds")
        case mn: None
        with None \<open>findTaskById i ds = Some t\<close> Cons.prems nosub show ?thesis by simp
      next
        case (Some ds1)
        with None \<open>findTaskById i ds = Some t\<close> Cons.prems nosub
        have "editTask_loop sts upd r held rest ds1 = (res, ds')" by simp
        from Cons.IH [OF this] editTask_step_ids [OF noid nosub Some] show ?thesis by simp
      qed
    qed
  qed
qed

lemma editTask_unique:
  assumes u: "storedUnique u w" and noid: "p_id upd = None" and nosub: "p_subtasks upd = None"
  shows "storedUnique u (snd (editTask u ids upd r w))"
proof -
  from u obtain d where stored: "tasksFile w u = Some (toJson d)"
    and uniq: "distinct (extractAllIds (datas d))" by (rule storedUniqueE)
  obtain res ds' where l: "editTask_loop (meta_states d) upd r [] ids (datas d) = (res, ds')"
    by (cases "editTask_loop (meta_states d) upd r [] ids (datas d)")
  from editTask_loop_ids [OF noid nosub l] uniq have "distinct (extractAllIds ds')"
    using mset_eq_imp_distinct_iff by blast
  with l u show ?thesis
    by (cases res) (simp_all add: editTask_present [OF stored])
qed

subsection \<open>deleteTask\<close>

lemma removeTask_unique:
  assumes d: "distinct (extractAllIds ds)" and r: "removeTask i ds = Some ds'"
  shows "distinct (extractAllIds ds')"
proof -
  from removeTask_mem [OF r] obtain t where "findTaskById i ds = Some t"
    using findTaskById_None_iff [of i ds] by (cases "findTaskById i ds") simp_all
  from removeTask_found [OF d this] r
  have "mset (extractAllIds ds) = mset (extractAllIds ds') + mset (extractFromTask t)" by simp
  from mset_split_distinct(1) [OF this d] show ?thesis .
qed

lemma deleteTask_loop_unique:
  "distinct (extractAllIds ds) \<Longrightarrow> deleteTask_loop ids ds = (res, ds') \<Longrightarrow>
   distinct (extractAllIds ds')"
proof (induction ids arbitrary: ds)
  case Nil
  then show ?case by simp
next
  case (Cons i rest)
  show ?case
  proof (cases "removeTask i ds")
    case None
    with Cons.prems show ?thesis by simp
  next
    case (Some ds1)
    with Cons.prems have "deleteTask_loop rest ds1 = (res, ds')" by simp
    from Cons.IH [OF removeTask_unique [OF Cons.prems(1) Some] this] show ?thesis .
  qed
qed

lemma deleteTask_unique:
  assumes u: "storedUnique u w"
  shows "storedUnique u (snd (deleteTask u ids w))"
proof -
  from u obtain d where stored: "tasksFile w u = Some (toJson d)"
    and uniq: "distinct (extractAllIds (datas d))" by (rule storedUniqueE)
  obtain res ds' where l: "deleteTask_loop ids (datas d) = (res, ds')"
    by (cases "deleteTask_loop ids (datas d)")
  from deleteTask_loop_unique [OF uniq l] l u show ?thesis
    by (cases res) (simp_all add: deleteTask_present [OF stored])
qed

subsection \<open>incrementTask and completeTask\<close>

lemma incrementTask_loop_unique:
  "storedUnique u w \<Longrightarrow> storedUnique u (snd (incrementTask_loop u sd r ids w))"
proof (induction ids arbitrary: w)
  case Nil
  then show ?case by simp
next
  case (Cons i rest)
  show ?case
  proof (cases "findTaskById i (datas sd)")
    case None
    with Cons.prems show ?thesis by simp
  next
    case (Some t)
    show ?thesis
    proof (cases "getNextState (task_state t) (meta_states sd)")
      case (Inl e)
      with Some Cons.prems show ?thesis by simp
    next
      case (Inr ns)
      show ?thesis
      proof (cases ns)
        case None
        with Inr Some Cons.prems show ?thesis by simp
      next
        case (Some s)
        show ?thesis
        proof (cases "s = []")
          case True
          with Some Inr \<open>findTaskById i (datas sd) = Some t\<close> Cons.prems show ?thesis by simp
        next
          case False
          have noid: "p_id (noFields\<lparr>p_state := Some s\<rparr>) = None"
            by (simp add: noFields_def)
          obtain res w1 where e: "editTask u [i] (noFields\<lparr>p_state := Some s\<rparr>) r w = (res, w1)"
            by (cases "editTask u [i] (noFields\<lparr>p_state := Some s\<rparr>) r w")
          have w1: "storedUnique u w1"
            using editTask_unique [OF Cons.prems noid, of "[i]" r] e by simp
          show ?thesis
          proof (cases res)
            case (Inl err)
            with e w1 False Some Inr \<open>findTaskById i (datas sd) = Some t\<close> show ?thesis by simp
          next
            case (Inr x)
            with e Cons.IH [OF w1] False Some \<open>getNextState (task_state t) (meta_states sd) = Inr ns\<close>
              \<open>findTaskById i (datas sd) = Some t\<close> show ?thesis by simp
          qed
        qed
      qed
    qed
  qed
qed

lemma incrementTask_unique:
  assumes u: "storedUnique u w"
  shows "storedUnique u (snd (incrementTask u ids r w))"
proof -
  from u obtain d where stored: "tasksFile w u = Some (toJson d)" by (rule storedUniqueE)
  show ?thesis
    using incrementTask_loop_unique [OF u] by (simp add: incrementTask_present [OF stored])
qed

lemma completeTask_unique:
  assumes u: "storedUnique u w"
  shows "storedUnique u (snd (completeTask u ids r w))"
proof -
  from u obtain d where stored: "tasksFile w u = Some (toJson d)" by (rule storedUniqueE)
  show ?thesis
  proof (cases "getFinalState (meta_states d)")
    case (Inl e)
    with u show ?thesis by (simp add: completeTask_def loadStorage_present [OF stored])
  next
    case (Inr s)
    have "p_id (noFields\<lparr>p_state := Some s\<rparr>) = None" by (simp add: noFields_def)
    from editTask_unique [OF u this, of ids r] Inr show ?thesis
      by (simp add: completeTask_def loadStorage_present [OF stored])
  qed
qed

subsection \<open>addTask and moveTask\<close>

lemma subs_pushSubtask [simp]: "subs (pushSubtask c p) = subs p @ [c]"
  by (simp add: pushSubtask_def subs_def)

lemma task_id_pushSubtask [simp]: "task_id (pushSubtask c p) = task_id p"
  by (simp add: pushSubtask_def)

lemma extractFromTask_pushSubtask:
  "extractFromTask (pushSubtask c p) = extractFromTask p @ extractFromTask c"
  by (simp add: extractFromTask_eq [of "pushSubtask c p"] extractFromTask_eq [of p]
        extractAllIds_Cons')

lemma pushSubtask_ids:
  assumes "modifyTaskById i (pushSubtask c) ds = Some ds'"
  shows "mset (extractAllIds ds') = mset (extractAllIds ds) + mset (extractFromTask c)"
proof -
  obtain p where p: "findTaskById i ds = Some p"
    using assms modifyTaskById_None_iff [of i "pushSubtask c" ds]
    by (cases "findTaskById i ds") simp_all
  from modifyTaskById_ids [OF p assms] show ?thesis
    by (simp add: extractFromTask_pushSubtask)
qed

lemma extractFromTask_newTask:
  "extractFromTask (newTask newId st now taskData) =
     (case p_id taskData of Some k \<Rightarrow> k | None \<Rightarrow> newId) #
     (case p_subtasks taskData of Some arr \<Rightarrow> extractAllIds arr | None \<Rightarrow> [])"
  by (simp add: extractFromTask_eq task_id_newTask subs_def split: option.split)

lemma addTask_unique:
  assumes stored: "tasksFile w u = Some (toJson d)"
    and uniq: "distinct (extractAllIds (datas d))"
    and free: "case p_id taskData of
                 Some k \<Rightarrow> k \<notin> set (extractAllIds (datas d))
               | None \<Rightarrow> True"
    and nested: "case p_subtasks taskData of
                   None \<Rightarrow> True
                 | Some arr \<Rightarrow>
                     distinct (extractAllIds arr) \<and>
                     set (extractAllIds arr) \<inter> set (extractAllIds (datas d)) = {} \<and>
                     (case p_id taskData of
                        Some k \<Rightarrow> k
                      | None \<Rightarrow> generateTaskId (extractAllIds (datas d))) \<notin> set (extractAllIds arr)"
  shows "storedUnique u (snd (addTask u taskData parentId now w))"
proof -
  have u: "storedUnique u w"
    using uniq by (simp add: storedUnique_stored [OF stored])
  define newId where "newId = newTaskId taskData (extractAllIds (datas d))"
  define sid where "sid = (case p_id taskData of Some k \<Rightarrow> k | None \<Rightarrow> newId)"
  define inner where
    "inner = (case p_subtasks taskData of Some arr \<Rightarrow> extractAllIds arr | None \<Rightarrow> [])"
  have sid': "sid = (case p_id taskData of
                       Some k \<Rightarrow> k
                     | None \<Rightarrow> generateTaskId (extractAllIds (datas d)))"
    by (cases "p_id taskData") (simp_all add: sid_def newId_def newTaskId_def)
  have sid: "sid \<notin> set (extractAllIds (datas d))"
  proof (cases "p_id taskData")
    case None
    then show ?thesis
      using generateTaskId_fresh [of "extractAllIds (datas d)"]
      by (simp add: sid_def newId_def newTaskId_def)
  next
    case (Some k)
    with free show ?thesis by (simp add: sid_def)
  qed
  have new: "distinct (sid # inner)" "set (sid # inner) \<inter> set (extractAllIds (datas d)) = {}"
    using nested sid sid' by (cases "p_subtasks taskData"; simp add: inner_def)+
  have all: "distinct (extractAllIds (datas d) @ sid # inner)"
    using uniq new by auto
  show ?thesis
  proof (cases "newTaskState taskData (meta_states d)")
    case (Inl e)
    with u show ?thesis by (simp add: addTask_present [OF stored])
  next
    case (Inr st)
    define task where "task = newTask newId st now taskData"
    have ft: "extractFromTask task = sid # inner"
      by (simp add: task_def extractFromTask_newTask sid_def inner_def)
    show ?thesis
    proof (cases "validateState (case task_state task of Some s \<Rightarrow> s | None \<Rightarrow> []) (meta_states d)")
      case False
      with Inr u show ?thesis
        by (simp add: addTask_present [OF stored] Let_def task_def newId_def)
    next
      case True
      show ?thesis
      proof (cases parentId)
        case None
        have "distinct (extractAllIds (datas d @ [task]))"
          using all ft by (simp add: extractAllIds_Cons')
        with None True Inr show ?thesis
          by (simp add: addTask_present [OF stored] Let_def task_def newId_def)
      next
        case (Some pid)
        show ?thesis
        proof (cases "modifyTaskById pid (pushSubtask task) (datas d)")
          case None
          with Some True Inr u show ?thesis
            by (simp add: addTask_present [OF stored] Let_def task_def newId_def)
        next
          case (Some ds)
          from pushSubtask_ids [OF Some] ft
          have "mset (extractAllIds ds) = mset (extractAllIds (datas d) @ sid # inner)" by simp
          with all have "distinct (extractAllIds ds)"
            using mset_eq_imp_distinct_iff by blast
          with Some \<open>parentId = Some pid\<close> True Inr show ?thesis
            by (simp add: addTask_present [OF stored] Let_def task_def newId_def)
        qed
      qed
    qed
  qed
qed

lemma editTask_one_unique:
  assumes stored: "tasksFile w u = Some (toJson d)"
    and uniq: "distinct (extractAllIds (datas d))"
    and free: "case p_id upd of
                 Some k \<Rightarrow> k = i \<or> k \<notin> set (extractAllIds (datas d))
               | None \<Rightarrow> True"
    and nested: "case p_subtasks upd of
                   None \<Rightarrow> True
                 | Some arr \<Rightarrow>
                     distinct (extractAllIds arr) \<and>
                     set (extractAllIds arr) \<inter> set (extractAllIds (datas d)) = {} \<and>
                     (case p_id upd of Some k \<Rightarrow> k | None \<Rightarrow> i) \<notin> set (extractAllIds arr)"
  shows "storedUnique u (snd (editTask u [i] upd False w))"
proof -
  have u: "storedUnique u w"
    using uniq by (simp add: storedUnique_stored [OF stored])
  show ?thesis
  proof (cases "findTaskById i (datas d)")
    case None
    with u show ?thesis by (simp add: editTask_present [OF stored])
  next
    case (Some t)
    note found = this
    show ?thesis
    proof (cases "checkState i upd (meta_states d)")
      case (Some e)
      with found u show ?thesis by (simp add: editTask_present [OF stored])
    next
      case None
      obtain ds where ds: "modifyTaskById i (applyUpdates False upd) (datas d) = Some ds"
        using found modifyTaskById_None_iff [of i "applyUpdates False upd" "datas d"]
        by (cases "modifyTaskById i (applyUpdates False upd) (datas d)") simp_all
      have mf: "mergeFailure False upd [] i (datas d) t = None"
        by (rule mergeFailure_first) simp
      define sid where "sid = (case p_id upd of Some k \<Rightarrow> k | None \<Rightarrow> i)"
      define inner where
        "inner = (case p_subtasks upd of Some arr \<Rightarrow> extractAllIds arr
                  | None \<Rightarrow> extractAllIds (subs t))"
      have ti: "task_id t = Some i"
        using found by (rule findTaskById_id)
      have old: "extractFromTask t = i # extractAllIds (subs t)"
        using ti by (simp add: extractFromTask_eq)
      have new: "extractFromTask (applyUpdates False upd t) = sid # inner"
        using ti by (simp add: extractFromTask_eq applyUpdates_def sid_def inner_def
              split: option.split)
      from removeTask_found [OF uniq found] obtain ds0 where
        ms0: "mset (extractAllIds (datas d)) = mset (extractAllIds ds0) + mset (extractFromTask t)"
        by blast
      note sp = mset_split_distinct [OF ms0 uniq]
      from modifyTaskById_ids [OF found ds] ms0
      have "mset (extractAllIds ds) + mset (extractFromTask t) =
            mset (extractAllIds ds0) + mset (extractFromTask t) + mset (sid # inner)"
        by (simp add: new)
      then have m: "mset (extractAllIds ds) = mset (extractAllIds ds0 @ sid # inner)"
        by simp
      have mem: "i \<in> set (extractFromTask t)"
        by (simp add: old)
      have dt: "distinct (extractFromTask t)"
      proof -
        from ms0 have "mset (extractAllIds (datas d)) = mset (extractFromTask t) + mset (extractAllIds ds0)"
          by simp
        from mset_split_distinct(1) [OF this uniq] show ?thesis .
      qed
      have sid0: "sid \<notin> set (extractAllIds ds0)"
      proof (cases "p_id upd")
        case None
        then have "sid = i" by (simp add: sid_def)
        with mem sp(2) show ?thesis by auto
      next
        case (Some k)
        then have k: "sid = k" by (simp add: sid_def)
        from Some free have "k = i \<or> k \<notin> set (extractAllIds (datas d))" by simp
        then show ?thesis
        proof
          assume "k = i"
          with k mem sp(2) show ?thesis by auto
        next
          assume "k \<notin> set (extractAllIds (datas d))"
          with k sp(3) show ?thesis by simp
        qed
      qed
      have inner: "distinct (sid # inner) \<and> set inner \<inter> set (extractAllIds ds0) = {}"
      proof (cases "p_subtasks upd")
        case None
        then have i: "inner = extractAllIds (subs t)" by (simp add: inner_def)
        have a: "distinct inner" "i \<notin> set inner"
          using dt by (simp_all add: old i)
        have b: "set inner \<inter> set (extractAllIds ds0) = {}"
          using sp(2) by (auto simp: old i)
        have "sid \<notin> set inner"
        proof (cases "p_id upd")
          case None
          then show ?thesis using a(2) by (simp add: sid_def)
        next
          case (Some k)
          with free have "k = i \<or> k \<notin> set (extractAllIds (datas d))" by simp
          moreover have "set inner \<subseteq> set (extractAllIds (datas d))"
            using sp(3) by (auto simp: old i)
          ultimately show ?thesis using a(2) Some by (auto simp: sid_def)
        qed
        with a b show ?thesis by simp
      next
        case (Some arr)
        with nested have n: "distinct (extractAllIds arr)"
          "set (extractAllIds arr) \<inter> set (extractAllIds (datas d)) = {}"
          "sid \<notin> set (extractAllIds arr)"
          by (simp_all add: sid_def)
        from Some have i: "inner = extractAllIds arr" by (simp add: inner_def)
        from n(2) sp(3) have "set inner \<inter> set (extractAllIds ds0) = {}"
          by (auto simp: i)
        with n(1,3) show ?thesis by (simp add: i)
      qed
      have "distinct (extractAllIds ds0 @ sid # inner)"
        using sp(1) sid0 inner by auto
      with m have "distinct (extractAllIds ds)"
        using mset_eq_imp_distinct_iff by blast
      with found None ds mf show ?thesis
        by (simp add: editTask_present [OF stored])
    qed
  qed
qed

subsection \<open>moveTask over a batch\<close>

lemma found_ids_subset:
  "findTaskById x ds = Some t \<Longrightarrow> set (extractFromTask t) \<subseteq> set (extractAllIds ds)"
proof (induction ds rule: forest_induct)
  case Nil
  then show ?case by simp
next
  case (Cons t0 ts)
  show ?case
  proof (cases "task_id t0 = Some x")
    case True
    with Cons.prems have "t = t0" by (simp add: findTaskById_Cons)
    then show ?thesis by (simp add: extractAllIds_Cons')
  next
    case False
    show ?thesis
    proof (cases "findTaskById x (subs t0)")
      case None
      with False Cons.prems have "findTaskById x ts = Some t" by (simp add: findTaskById_Cons)
      from Cons.IH(2) [OF this] show ?thesis by (auto simp: extractAllIds_Cons')
    next
      case (Some r)
      with False Cons.prems have "findTaskById x (subs t0) = Some t" by (simp add: findTaskById_Cons)
      from Cons.IH(1) [OF this] show ?thesis
        by (auto simp: extractAllIds_Cons' extractFromTask_eq [of t0])
    qed
  qed
qed

lemma found_distinct:
  "findTaskById x ds = Some t \<Longrightarrow> distinct (extractAllIds ds) \<Longrightarrow> distinct (extractFromTask t)"
proof (induction ds rule: forest_induct)
  case Nil
  then show ?case by simp
next
  case (Cons t0 ts)
  from Cons.prems(2) have d0: "distinct (extractFromTask t0)" and dts: "distinct (extractAllIds ts)"
    by (simp_all add: extractAllIds_Cons')
  from d0 have ds0: "distinct (extractAllIds (subs t0))"
    by (simp add: extractFromTask_eq [of t0])
  show ?case
  proof (cases "task_id t0 = Some x")
    case True
    with Cons.prems have "t = t0" by (simp add: findTaskById_Cons)
    with d0 show ?thesis by simp
  next
    case False
    show ?thesis
    proof (cases "findTaskById x (subs t0)")
      case None
      with False Cons.prems have "findTaskById x ts = Some t" by (simp add: findTaskById_Cons)
      from Cons.IH(2) [OF this dts] show ?thesis .
    next
      case (Some r)
      with False Cons.prems have "findTaskById x (subs t0) = Some t" by (simp add: findTaskById_Cons)
      from Cons.IH(1) [OF this ds0] show ?thesis .
    qed
  qed
qed

lemma find_in_subtree:
  "distinct (extractAllIds ds) \<Longrightarrow> findTaskById x ds = Some t \<Longrightarrow> z \<in> set (extractFromTask t) \<Longrightarrow>
   findTaskById z ds = findTaskById z [t]"
proof (induction ds rule: forest_induct)
  case Nil
  then show ?case by simp
next
  case (Cons t0 ts)
  from Cons.prems(1) have d0: "distinct (extractFromTask t0)" and dts: "distinct (extractAllIds ts)"
    and dj: "set (extractFromTask t0) \<inter> set (extractAllIds ts) = {}"
    by (simp_all add: extractAllIds_Cons')
  from d0 have ds0: "distinct (extractAllIds (subs t0))"
    by (simp add: extractFromTask_eq [of t0])
  show ?case
  proof (cases "task_id t0 = Some x")
    case True
    with Cons.prems have t: "t = t0" by (simp add: findTaskById_Cons)
    show ?thesis
    proof (cases "task_id t0 = Some z")
      case True
      then show ?thesis by (simp add: t findTaskById_Cons)
    next
      case False
      with Cons.prems(3) t have "z \<in> set (extractAllIds (subs t0))"
        by (auto simp: extractFromTask_eq [of t0] split: option.splits)
      then obtain r where "findTaskById z (subs t0) = Some r"
        using findTaskById_None_iff [of z "subs t0"] by (cases "findTaskById z (subs t0)") auto
      with False show ?thesis by (simp add: t findTaskById_Cons)
    qed
  next
    case False
    note nx = this
    show ?thesis
    proof (cases "findTaskById x (subs t0)")
      case None
      with nx Cons.prems have f: "findTaskById x ts = Some t" by (simp add: findTaskById_Cons)
      from found_ids_subset [OF f] Cons.prems(3) have zt: "z \<in> set (extractAllIds ts)" by auto
      with dj have z0: "z \<notin> set (extractFromTask t0)" by auto
      then have "task_id t0 \<noteq> Some z" "findTaskById z (subs t0) = None"
        by (auto simp: extractFromTask_eq [of t0] findTaskById_None_iff)
      with Cons.IH(2) [OF dts f Cons.prems(3)] show ?thesis
        by (simp add: findTaskById_Cons [of z t0 ts])
    next
      case (Some r)
      with nx Cons.prems have f: "findTaskById x (subs t0) = Some t" by (simp add: findTaskById_Cons)
      from found_ids_subset [OF f] Cons.prems(3) have zs: "z \<in> set (extractAllIds (subs t0))" by auto
      with d0 have "task_id t0 \<noteq> Some z"
        by (auto simp: extractFromTask_eq [of t0])
      moreover from zs obtain r' where "findTaskById z (subs t0) = Some r'"
        using findTaskById_None_iff [of z "subs t0"] by (cases "findTaskById z (subs t0)") auto
      ultimately have "findTaskById z (t0 # ts) = findTaskById z (subs t0)"
        by (simp add: findTaskById_Cons)
      with Cons.IH(1) [OF ds0 f Cons.prems(3)] show ?thesis by simp
    qed
  qed
qed


lemma subtreeIds_nested:
  assumes "distinct (extractAllIds ds)" and "findTaskById x ds = Some t"
    and "z \<in> set (extractFromTask t)"
  shows "subtreeIds ds z \<subseteq> set (extractFromTask t)"
proof (cases "findTaskById z ds")
  case None
  then show ?thesis by (simp add: subtreeIds_def)
next
  case (Some tz)
  with find_in_subtree [OF assms] have "findTaskById z [t] = Some tz" by simp
  from found_ids_subset [OF this] Some show ?thesis
    by (simp add: subtreeIds_def extractAllIds_Cons')
qed

lemma findTaskById_Cons_cases:
  assumes "findTaskById x (t0 # ts) = Some c"
  obtains (top) "task_id t0 = Some x" "c = t0"
    | (inside) "task_id t0 \<noteq> Some x" "findTaskById x (subs t0) = Some c"
    | (after) "task_id t0 \<noteq> Some x" "findTaskById x (subs t0) = None" "findTaskById x ts = Some c"
  using assms by (auto simp: findTaskById_Cons split: if_splits option.splits)

lemma found_self: "findTaskById x ds = Some t \<Longrightarrow> x \<in> set (extractFromTask t)"
  using findTaskById_id [of x ds t] by (simp add: extractFromTask_eq)

lemma subtrees_nested_or_disjoint:
  "distinct (extractAllIds ds) \<Longrightarrow> findTaskById x ds = Some cx \<Longrightarrow> findTaskById y ds = Some cy \<Longrightarrow>
   w \<in> set (extractFromTask cx) \<Longrightarrow> w \<in> set (extractFromTask cy) \<Longrightarrow>
   x \<in> set (extractFromTask cy) \<or> y \<in> set (extractFromTask cx)"
proof (induction ds rule: forest_induct)
  case Nil
  then show ?case by simp
next
  case (Cons t0 ts)
  from Cons.prems(1) have d0: "distinct (extractFromTask t0)" and dts: "distinct (extractAllIds ts)"
    and dj: "set (extractFromTask t0) \<inter> set (extractAllIds ts) = {}"
    by (simp_all add: extractAllIds_Cons')
  from d0 have ds0: "distinct (extractAllIds (subs t0))"
    by (simp add: extractFromTask_eq [of t0])
  have in0: "set (extractAllIds (subs t0)) \<subseteq> set (extractFromTask t0)"
    by (auto simp: extractFromTask_eq [of t0])
  note wx = Cons.prems(4) and wy = Cons.prems(5)
  from Cons.prems(2) show ?case
  proof (cases rule: findTaskById_Cons_cases)
    case top
    note x = this
    from Cons.prems(3) show ?thesis
    proof (cases rule: findTaskById_Cons_cases)
      case top
      with x have "x = y" by simp
      with found_self [OF Cons.prems(3)] show ?thesis by simp
    next
      case inside
      from found_self [OF inside(2)] found_ids_subset [OF inside(2)] in0 x(2)
      show ?thesis by auto
    next
      case after
      from found_ids_subset [OF after(3)] wy wx x(2) dj show ?thesis by auto
    qed
  next
    case inside
    note x = this
    from Cons.prems(3) show ?thesis
    proof (cases rule: findTaskById_Cons_cases)
      case top
      from found_self [OF x(2)] found_ids_subset [OF x(2)] in0 top(2)
      show ?thesis by auto
    next
      case inside
      from Cons.IH(1) [OF ds0 x(2) inside(2) wx wy] show ?thesis .
    next
      case after
      from found_ids_subset [OF after(3)] found_ids_subset [OF x(2)] wy wx in0 dj
      show ?thesis by auto
    qed
  next
    case after
    note x = this
    from Cons.prems(3) show ?thesis
    proof (cases rule: findTaskById_Cons_cases)
      case top
      from found_ids_subset [OF x(3)] wy wx top(2) dj show ?thesis by auto
    next
      case inside
      from found_ids_subset [OF x(3)] found_ids_subset [OF inside(2)] wy wx in0 dj
      show ?thesis by auto
    next
      case after
      from Cons.IH(2) [OF dts x(3) after(3) wx wy] show ?thesis .
    qed
  qed
qed


lemma findTaskById_append:
  "findTaskById z (as @ bs) =
     (case findTaskById z as of Some r \<Rightarrow> Some r | None \<Rightarrow> findTaskById z bs)"
  by (induction as) (simp_all add: findTaskById_Cons split: option.split)

lemma modifyTaskById_Cons_cases:
  assumes "modifyTaskById p f (t0 # ts) = Some ds'"
  obtains (top) "task_id t0 = Some p" "ds' = f t0 # ts"
    | (inside) ss' where "task_id t0 \<noteq> Some p" "modifyTaskById p f (subs t0) = Some ss'"
        "ds' = setSubtasks (Some ss') t0 # ts"
    | (after) ts' where "task_id t0 \<noteq> Some p" "modifyTaskById p f (subs t0) = None"
        "modifyTaskById p f ts = Some ts'" "ds' = t0 # ts'"
  using assms by (auto simp: modifyTaskById_Cons split: if_splits option.splits)

lemma find_after_push:
  "modifyTaskById p (pushSubtask c) ds = Some ds' \<Longrightarrow> z \<notin> set (extractFromTask c) \<Longrightarrow>
   findTaskById z ds = Some tz \<Longrightarrow>
   \<exists>t2. findTaskById z ds' = Some t2 \<and> set (extractFromTask tz) \<subseteq> set (extractFromTask t2)"
proof (induction ds arbitrary: ds' rule: forest_induct)
  case Nil
  then show ?case by simp
next
  case (Cons t0 ts)
  have zc: "findTaskById z [c] = None"
    using Cons.prems(2) by (simp add: findTaskById_None_iff extractAllIds_Cons')
  from Cons.prems(1) show ?case
  proof (cases rule: modifyTaskById_Cons_cases)
    case top
    show ?thesis
    proof (cases "task_id t0 = Some z")
      case True
      with Cons.prems(3) have "tz = t0" by (simp add: findTaskById_Cons)
      with True top(2) show ?thesis
        by (simp add: findTaskById_Cons extractFromTask_pushSubtask)
    next
      case False
      have "findTaskById z (subs (pushSubtask c t0)) = findTaskById z (subs t0)"
        using zc by (simp add: findTaskById_append split: option.split)
      with False Cons.prems(3) top(2) show ?thesis
        by (simp add: findTaskById_Cons)
    qed
  next
    case (inside ss')
    from pushSubtask_ids [OF inside(2)]
    have ids: "set (extractAllIds ss') = set (extractAllIds (subs t0)) \<union> set (extractFromTask c)"
      by (metis mset_eq_setD set_append mset_append)
    show ?thesis
    proof (cases "task_id t0 = Some z")
      case True
      with Cons.prems(3) have "tz = t0" by (simp add: findTaskById_Cons)
      with True inside(3) ids show ?thesis
        by (auto simp: findTaskById_Cons extractFromTask_eq [of t0]
              extractFromTask_eq [of "setSubtasks (Some ss') t0"])
    next
      case False
      show ?thesis
      proof (cases "findTaskById z (subs t0)")
        case None
        then have "z \<notin> set (extractAllIds ss')"
          using ids Cons.prems(2) by (simp add: findTaskById_None_iff)
        then have "findTaskById z ss' = None" by (simp add: findTaskById_None_iff)
        with None False Cons.prems(3) inside(3) show ?thesis
          by (simp add: findTaskById_Cons)
      next
        case (Some r)
        with False Cons.prems(3) have "findTaskById z (subs t0) = Some tz"
          by (simp add: findTaskById_Cons)
        from Cons.IH(1) [OF inside(2) Cons.prems(2) this] obtain t2 where
          "findTaskById z ss' = Some t2" "set (extractFromTask tz) \<subseteq> set (extractFromTask t2)"
          by blast
        with False inside(3) show ?thesis by (simp add: findTaskById_Cons)
      qed
    qed
  next
    case (after ts')
    show ?thesis
    proof (cases "task_id t0 = Some z")
      case True
      with Cons.prems(3) after(4) show ?thesis by (simp add: findTaskById_Cons)
    next
      case False
      show ?thesis
      proof (cases "findTaskById z (subs t0)")
        case None
        with False Cons.prems(3) have "findTaskById z ts = Some tz"
          by (simp add: findTaskById_Cons)
        from Cons.IH(2) [OF after(3) Cons.prems(2) this] None False after(4)
        show ?thesis by (simp add: findTaskById_Cons)
      next
        case (Some r)
        with False Cons.prems(3) after(4) show ?thesis by (simp add: findTaskById_Cons)
      qed
    qed
  qed
qed

lemma find_in_pushed:
  "modifyTaskById p (pushSubtask c) ds = Some ds' \<Longrightarrow> z \<notin> set (extractAllIds ds) \<Longrightarrow>
   findTaskById z ds' = findTaskById z [c]"
proof (induction ds arbitrary: ds' rule: forest_induct)
  case Nil
  then show ?case by simp
next
  case (Cons t0 ts)
  from Cons.prems(2) have z0: "task_id t0 \<noteq> Some z" and zs: "z \<notin> set (extractAllIds (subs t0))"
    and zt: "z \<notin> set (extractAllIds ts)"
    by (auto simp: extractAllIds_Cons' extractFromTask_eq [of t0])
  have fs: "findTaskById z (subs t0) = None" and ft: "findTaskById z ts = None"
    using zs zt by (simp_all add: findTaskById_None_iff)
  from Cons.prems(1) show ?case
  proof (cases rule: modifyTaskById_Cons_cases)
    case top
    have "findTaskById z (subs (pushSubtask c t0)) = findTaskById z [c]"
      using fs by (simp add: findTaskById_append)
    with z0 ft top(2) show ?thesis
      by (simp add: findTaskById_Cons [of z "pushSubtask c t0"] split: option.split)
  next
    case (inside ss')
    from Cons.IH(1) [OF inside(2) zs] have "findTaskById z ss' = findTaskById z [c]" .
    with z0 ft inside(3) show ?thesis
      by (simp add: findTaskById_Cons [of z "setSubtasks (Some ss') t0"] split: option.split)
  next
    case (after ts')
    from Cons.IH(2) [OF after(3) zt] have "findTaskById z ts' = findTaskById z [c]" .
    with z0 fs after(4) show ?thesis
      by (simp add: findTaskById_Cons [of z t0])
  qed
qed


lemma find_after_splice:
  assumes "k < length ds" and "z \<notin> set (extractFromTask (ds ! k))"
  shows "findTaskById z (splice1 k ds) = findTaskById z ds"
proof -
  have nk: "task_id (ds ! k) \<noteq> Some z" "findTaskById z (subs (ds ! k)) = None"
    using assms(2) by (auto simp: extractFromTask_eq [of "ds ! k"] findTaskById_None_iff)
  have "ds = take k ds @ ds ! k # drop (Suc k) ds"
    using assms(1) by (simp add: id_take_nth_drop)
  then have "findTaskById z ds = findTaskById z (take k ds @ ds ! k # drop (Suc k) ds)"
    by simp
  also have "\<dots> = findTaskById z (take k ds @ drop (Suc k) ds)"
  proof -
    have "findTaskById z (ds ! k # drop (Suc k) ds) = findTaskById z (drop (Suc k) ds)"
      using nk by (simp add: findTaskById_Cons)
    then show ?thesis
      by (simp add: findTaskById_append [of z "take k ds"] split: option.split)
  qed
  finally show ?thesis by (simp add: splice1_def)
qed

lemma removeFromSubtasks_Cons_cases:
  assumes "removeFromSubtasks (t0 # ts) x = Some ds'"
  obtains (child) k where "findIndex (\<lambda>subtask. task_id subtask = Some x) (subs t0) = Some k"
        "task_subtasks t0 \<noteq> None" "ds' = setSubtasks (Some (splice1 k (subs t0))) t0 # ts"
    | (inside) ss' where "findIndex (\<lambda>subtask. task_id subtask = Some x) (subs t0) = None"
        "task_subtasks t0 \<noteq> None" "removeFromSubtasks (subs t0) x = Some ss'"
        "ds' = setSubtasks (Some ss') t0 # ts"
    | (after) ts' where "findIndex (\<lambda>subtask. task_id subtask = Some x) (subs t0) = None"
        "removeFromSubtasks (subs t0) x = None"
        "removeFromSubtasks ts x = Some ts'" "ds' = t0 # ts'"
proof (cases "task_subtasks t0")
  case None
  then have s: "subs t0 = []" by (rule subs_None)
  from assms None obtain ts' where "removeFromSubtasks ts x = Some ts'" "ds' = t0 # ts'"
    by (auto simp: removeFromSubtasks_Cons_None)
  with s after show ?thesis by simp
next
  case (Some ss)
  then have s: "subs t0 = ss" by (rule subs_Some)
  show ?thesis
  proof (cases "findIndex (\<lambda>subtask. task_id subtask = Some x) ss")
    case (Some k)
    with assms \<open>task_subtasks t0 = Some ss\<close> s child show ?thesis
      by (simp add: removeFromSubtasks_Cons_Some)
  next
    case None
    note ni = this
    show ?thesis
    proof (cases "removeFromSubtasks ss x")
      case (Some ss')
      with assms \<open>task_subtasks t0 = Some ss\<close> s ni inside show ?thesis
        by (simp add: removeFromSubtasks_Cons_Some)
    next
      case None
      with assms \<open>task_subtasks t0 = Some ss\<close> ni
      obtain ts' where "removeFromSubtasks ts x = Some ts'" "ds' = t0 # ts'"
        by (auto simp: removeFromSubtasks_Cons_Some)
      with s ni None after show ?thesis by simp
    qed
  qed
qed


lemma find_after_removeFromSubtasks:
  "distinct (extractAllIds ds) \<Longrightarrow> findTaskById x ds = Some t \<Longrightarrow>
   \<forall>t0 \<in> set ds. task_id t0 \<noteq> Some x \<Longrightarrow> removeFromSubtasks ds x = Some ds' \<Longrightarrow>
   z \<notin> set (extractFromTask t) \<Longrightarrow> findTaskById z ds = Some tz \<Longrightarrow>
   \<exists>t1. findTaskById z ds' = Some t1 \<and>
        set (extractFromTask tz) - set (extractFromTask t) \<subseteq> set (extractFromTask t1)"
proof (induction ds arbitrary: ds' rule: forest_induct)
  case Nil
  then show ?case by simp
next
  case (Cons t0 ts)
  from Cons.prems(1) have d0: "distinct (extractFromTask t0)" and dts: "distinct (extractAllIds ts)"
    by (simp_all add: extractAllIds_Cons')
  from d0 have ds0: "distinct (extractAllIds (subs t0))"
    by (simp add: extractFromTask_eq [of t0])
  from Cons.prems(3) have nx0: "task_id t0 \<noteq> Some x" and nxt: "\<forall>t0 \<in> set ts. task_id t0 \<noteq> Some x"
    by simp_all
  note fx = Cons.prems(2) and zt = Cons.prems(5) and fz = Cons.prems(6)
  from Cons.prems(4) show ?case
  proof (cases rule: removeFromSubtasks_Cons_cases)
    case (child k)
    from findIndex_Some [OF child(1)] have k: "k < length (subs t0)" by simp
    have "findTaskById x (subs t0) = Some (subs t0 ! k)"
      using ds0 child(1) by (rule findTaskById_top_level)
    with fx nx0 have t: "t = subs t0 ! k" by (simp add: findTaskById_Cons)
    from splice1_ids [OF k] t
    have ids: "set (extractAllIds (subs t0)) =
               set (extractAllIds (splice1 k (subs t0))) \<union> set (extractFromTask t)"
      by (metis mset_eq_setD set_append mset_append)
    show ?thesis
    proof (cases "task_id t0 = Some z")
      case True
      with fz have "tz = t0" by (simp add: findTaskById_Cons)
      with True child(3) ids show ?thesis
        by (auto simp: findTaskById_Cons extractFromTask_eq [of t0]
              extractFromTask_eq [of "setSubtasks (Some (splice1 k (subs t0))) t0"])
    next
      case False
      have "findTaskById z (splice1 k (subs t0)) = findTaskById z (subs t0)"
        using k zt t by (simp add: find_after_splice)
      with False fz child(3) show ?thesis
        by (simp add: findTaskById_Cons)
    qed
  next
    case (inside ss')
    from removeFromSubtasks_mem [OF inside(3)] obtain t' where t': "findTaskById x (subs t0) = Some t'"
      using findTaskById_None_iff [of x "subs t0"] by (cases "findTaskById x (subs t0)") auto
    with fx nx0 have fxs: "findTaskById x (subs t0) = Some t" by (simp add: findTaskById_Cons)
    have nts: "\<forall>t1 \<in> set (subs t0). task_id t1 \<noteq> Some x"
      using inside(1) by (simp add: findIndex_None_iff)
    from removeFromSubtasks_found [OF ds0 fxs nts] inside(3)
    have "mset (extractAllIds (subs t0)) = mset (extractAllIds ss') + mset (extractFromTask t)"
      by simp
    then have ids: "set (extractAllIds (subs t0)) = set (extractAllIds ss') \<union> set (extractFromTask t)"
      by (metis mset_eq_setD set_append mset_append)
    show ?thesis
    proof (cases "task_id t0 = Some z")
      case True
      with fz have "tz = t0" by (simp add: findTaskById_Cons)
      with True inside(4) ids show ?thesis
        by (auto simp: findTaskById_Cons extractFromTask_eq [of t0]
              extractFromTask_eq [of "setSubtasks (Some ss') t0"])
    next
      case False
      show ?thesis
      proof (cases "findTaskById z (subs t0)")
        case None
        then have "z \<notin> set (extractAllIds ss')"
          using ids by (simp add: findTaskById_None_iff)
        then have "findTaskById z ss' = None" by (simp add: findTaskById_None_iff)
        with None False fz inside(4) show ?thesis
          by (simp add: findTaskById_Cons)
      next
        case (Some r)
        with False fz have "findTaskById z (subs t0) = Some tz" by (simp add: findTaskById_Cons)
        from Cons.IH(1) [OF ds0 fxs nts inside(3) zt this] obtain t1 where
          "findTaskById z ss' = Some t1"
          "set (extractFromTask tz) - set (extractFromTask t) \<subseteq> set (extractFromTask t1)"
          by blast
        with False inside(4) show ?thesis by (simp add: findTaskById_Cons)
      qed
    qed
  next
    case (after ts')
    have nts: "\<forall>t1 \<in> set (subs t0). task_id t1 \<noteq> Some x"
      using after(1) by (simp add: findIndex_None_iff)
    have "findTaskById x (subs t0) = None"
    proof (cases "findTaskById x (subs t0)")
      case (Some r)
      from removeFromSubtasks_found [OF ds0 Some nts] after(2) show ?thesis by simp
    qed simp
    with fx nx0 have fxt: "findTaskById x ts = Some t" by (simp add: findTaskById_Cons)
    show ?thesis
    proof (cases "task_id t0 = Some z")
      case True
      with fz after(4) show ?thesis by (simp add: findTaskById_Cons)
    next
      case False
      show ?thesis
      proof (cases "findTaskById z (subs t0)")
        case None
        with False fz have "findTaskById z ts = Some tz" by (simp add: findTaskById_Cons)
        from Cons.IH(2) [OF dts fxt nxt after(3) zt this] None False after(4)
        show ?thesis by (simp add: findTaskById_Cons)
      next
        case (Some r)
        with False fz after(4) show ?thesis by (auto simp: findTaskById_Cons)
      qed
    qed
  qed
qed

lemma find_after_removeTask:
  assumes d: "distinct (extractAllIds ds)" and fx: "findTaskById x ds = Some t"
    and rm: "removeTask x ds = Some ds'"
    and zt: "z \<notin> set (extractFromTask t)" and fz: "findTaskById z ds = Some tz"
  shows "\<exists>t1. findTaskById z ds' = Some t1 \<and>
              set (extractFromTask tz) - set (extractFromTask t) \<subseteq> set (extractFromTask t1)"
proof (cases "findIndex (\<lambda>task. task_id task = Some x) ds")
  case (Some k)
  from findIndex_Some [OF Some] have k: "k < length ds" by simp
  have "findTaskById x ds = Some (ds ! k)"
    using d Some by (rule findTaskById_top_level)
  with fx have t: "t = ds ! k" by simp
  from Some rm have "ds' = splice1 k ds" by (simp add: removeTask_def)
  with find_after_splice [OF k, of z] zt t fz show ?thesis by auto
next
  case None
  then have nt: "\<forall>t0 \<in> set ds. task_id t0 \<noteq> Some x"
    by (simp add: findIndex_None_iff)
  from None rm have "removeFromSubtasks ds x = Some ds'" by (simp add: removeTask_def)
  from find_after_removeFromSubtasks [OF d fx nt this zt fz] show ?thesis .
qed


lemma moveTask_loop_unique:
  assumes S: "distinct (extractAllIds stale)"
  shows "ancestorsFirst stale ids \<Longrightarrow> tasksFile w u = Some (toJson d) \<Longrightarrow>
         distinct (extractAllIds (datas d)) \<Longrightarrow>
         \<forall>z \<in> set ids. subtreeIds stale z \<inter> set (extractAllIds (datas d)) \<subseteq> subtreeIds (datas d) z \<Longrightarrow>
         storedUnique u (snd (moveTask_loop u newParentId stale ids w))"
proof (induction ids arbitrary: w d)
  case Nil
  then show ?case by (simp add: storedUnique_stored)
next
  case (Cons x rest)
  note stored = Cons.prems(2) and uniq = Cons.prems(3)
  have su: "storedUnique u w"
    using uniq by (simp add: storedUnique_stored [OF stored])
  from Cons.prems(1) have ord: "\<forall>z \<in> set rest. x = z \<or> x \<notin> subtreeIds stale z"
    and ordr: "ancestorsFirst stale rest"
    by (simp_all add: list_all_iff)
  show ?case
  proof (cases "findTaskById x stale")
    case None
    with su show ?thesis by simp
  next
    case (Some c)
    note c = this
    have dc: "distinct (extractFromTask c)"
      using c S by (rule found_distinct)
    show ?thesis
    proof (cases "findTaskById x (datas d)")
      case None
      then have "removeTask x (datas d) = None"
        using removeTask_mem [of x "datas d"] findTaskById_None_iff [of x "datas d"]
        by (cases "removeTask x (datas d)") auto
      then have "deleteTask u [x] w = (Inl (TaskNotFoundError x), w)"
        by (simp add: deleteTask_present [OF stored])
      with c su show ?thesis by simp
    next
      case (Some t)
      note t = this
      from Cons.prems(4) c t
      have jx: "set (extractFromTask c) \<inter> set (extractAllIds (datas d)) \<subseteq> set (extractFromTask t)"
        by (simp add: subtreeIds_def)
      from removeTask_found [OF uniq t] obtain ds where
        rm: "removeTask x (datas d) = Some ds"
        and ms: "mset (extractAllIds (datas d)) = mset (extractAllIds ds) + mset (extractFromTask t)"
        by blast
      note sp = mset_split_distinct [OF ms uniq]
      let ?w1 = "saveStorage u (d\<lparr>datas := ds\<rparr>) w"
      have del: "deleteTask u [x] w = (Inr (), ?w1)"
        using rm by (simp add: deleteTask_present [OF stored])
      have load: "loadStorage u ?w1 = (Inr (d\<lparr>datas := ds\<rparr>, False), ?w1)"
        by (rule loadStorage_present) simp
      have cdis: "set (extractFromTask c) \<inter> set (extractAllIds ds) = {}"
        using jx sp(2,3) by auto
      show ?thesis
      proof (cases "modifyTaskById newParentId (pushSubtask c) ds")
        case None
        with c del load sp(1) show ?thesis by simp
      next
        case (Some ds2)
        note push = this
        from pushSubtask_ids [OF push]
        have ms2: "mset (extractAllIds ds2) = mset (extractAllIds ds @ extractFromTask c)" by simp
        have "distinct (extractAllIds ds @ extractFromTask c)"
          using sp(1) dc cdis by auto
        with ms2 have d2: "distinct (extractAllIds ds2)"
          using mset_eq_imp_distinct_iff by blast
        from ms2 have ids2: "set (extractAllIds ds2) = set (extractAllIds ds) \<union> set (extractFromTask c)"
          by (metis mset_eq_setD set_append)
        let ?w2 = "saveStorage u (d\<lparr>datas := ds2\<rparr>) ?w1"
        have stored2: "tasksFile ?w2 u = Some (toJson (d\<lparr>datas := ds2\<rparr>))"
          by simp
        have inv: "\<forall>z \<in> set rest. subtreeIds stale z \<inter> set (extractAllIds (datas (d\<lparr>datas := ds2\<rparr>)))
                     \<subseteq> subtreeIds (datas (d\<lparr>datas := ds2\<rparr>)) z"
        proof (intro ballI subsetI)
          fix z v
          assume z: "z \<in> set rest"
            and v: "v \<in> subtreeIds stale z \<inter> set (extractAllIds (datas (d\<lparr>datas := ds2\<rparr>)))"
          from v obtain cz where cz: "findTaskById z stale = Some cz" and vz: "v \<in> set (extractFromTask cz)"
            by (cases "findTaskById z stale") (auto simp: subtreeIds_def)
          from v have v2: "v \<in> set (extractAllIds ds2)" by simp
          have "v \<in> subtreeIds ds2 z"
          proof (cases "v \<in> set (extractFromTask c)")
            case True
            from subtrees_nested_or_disjoint [OF S cz c vz True]
            have "z \<in> set (extractFromTask c) \<or> x \<in> set (extractFromTask cz)" .
            moreover have "x \<in> set (extractFromTask cz) \<Longrightarrow> z \<in> set (extractFromTask c)"
            proof -
              assume "x \<in> set (extractFromTask cz)"
              then have "x \<in> subtreeIds stale z" using cz by (simp add: subtreeIds_def)
              with ord z have "x = z" by blast
              with found_self [OF c] show ?thesis by simp
            qed
            ultimately have zc: "z \<in> set (extractFromTask c)" by blast
            with cdis have "z \<notin> set (extractAllIds ds)" by auto
            from find_in_pushed [OF push this] have "findTaskById z ds2 = findTaskById z [c]" .
            also from find_in_subtree [OF S c zc] cz have "findTaskById z [c] = Some cz" by simp
            finally show ?thesis using vz by (simp add: subtreeIds_def)
          next
            case False
            with v2 ids2 have vds: "v \<in> set (extractAllIds ds)" by simp
            with sp(2,3) have vF: "v \<in> set (extractAllIds (datas d))" and vt: "v \<notin> set (extractFromTask t)"
              by auto
            from Cons.prems(4) z have "subtreeIds stale z \<inter> set (extractAllIds (datas d))
                                        \<subseteq> subtreeIds (datas d) z" by simp
            with cz vz vF have "v \<in> subtreeIds (datas d) z" by (auto simp: subtreeIds_def)
            then obtain tz where tz: "findTaskById z (datas d) = Some tz" and vtz: "v \<in> set (extractFromTask tz)"
              by (cases "findTaskById z (datas d)") (auto simp: subtreeIds_def)
            have znt: "z \<notin> set (extractFromTask t)"
            proof
              assume "z \<in> set (extractFromTask t)"
              from subtreeIds_nested [OF uniq t this] tz vtz have "v \<in> set (extractFromTask t)"
                by (auto simp: subtreeIds_def)
              with vt show False by simp
            qed
            from find_after_removeTask [OF uniq t rm znt tz] obtain t1 where
              t1: "findTaskById z ds = Some t1"
              and b1: "set (extractFromTask tz) - set (extractFromTask t) \<subseteq> set (extractFromTask t1)"
              by blast
            from found_self [OF t1] found_ids_subset [OF t1] have "z \<in> set (extractAllIds ds)" by auto
            with cdis have "z \<notin> set (extractFromTask c)" by auto
            from find_after_push [OF push this t1] obtain t2 where
              "findTaskById z ds2 = Some t2" "set (extractFromTask t1) \<subseteq> set (extractFromTask t2)"
              by blast
            with b1 vtz vt show ?thesis by (auto simp: subtreeIds_def)
          qed
          then show "v \<in> subtreeIds (datas (d\<lparr>datas := ds2\<rparr>)) z" by simp
        qed
        have "distinct (extractAllIds (datas (d\<lparr>datas := ds2\<rparr>)))"
          using d2 by simp
        from Cons.IH [OF ordr stored2 this inv] c del load push show ?thesis
          by simp
      qed
    qed
  qed
qed

lemma moveTask_unique:
  assumes stored: "tasksFile w u = Some (toJson d)"
    and uniq: "distinct (extractAllIds (datas d))"
    and ord: "ancestorsFirst (datas d) taskIds"
  shows "storedUnique u (snd (moveTask u taskIds newParentId w))"
proof (cases "findTaskById newParentId (datas d)")
  case None
  with uniq show ?thesis
    by (simp add: moveTask_def loadStorage_present [OF stored] storedUnique_stored [OF stored])
next
  case (Some p)
  have "\<forall>z \<in> set taskIds. subtreeIds (datas d) z \<inter> set (extractAllIds (datas d))
          \<subseteq> subtreeIds (datas d) z"
    by blast
  from moveTask_loop_unique [OF uniq ord stored uniq this, of newParentId] Some show ?thesis
    by (simp add: moveTask_def loadStorage_present [OF stored])
qed

text \<open>
  C2 (as amended).  On a stored forest with unique ids, the forest stored after the
  operation, whether it succeeds or fails, has unique ids again for: \<open>addTask\<close> whose
  explicit id, if any, is not in the forest and whose \<^verbatim>\<open>subtasks\<close> array, if any, brings
  ids that are distinct, not in the forest and different from the id stored on the new
  node; \<open>editTask\<close> of any batch with updates that have neither an \<^verbatim>\<open>id\<close> key nor a
  \<^verbatim>\<open>subtasks\<close> key; the non-recursive \<open>editTask\<close> of one id whose \<^verbatim>\<open>id\<close> key, if any, is
  the node's own id or not in the forest, and whose \<^verbatim>\<open>subtasks\<close> array, if any, brings
  ids that are distinct, not in the forest and different from the id the node has
  after the edit; \<open>deleteTask\<close>; \<open>incrementTask\<close>; \<open>completeTask\<close>; and \<open>moveTask\<close> of a
  batch in which no id comes after the id of one of its proper descendants (a batch of
  one id among them).
\<close>

theorem id_uniqueness_preserved:
  assumes stored: "tasksFile w u = Some (toJson d)"
    and uniq: "distinct (extractAllIds (datas d))"
  shows "((case p_id taskData of
             Some k \<Rightarrow> k \<notin> set (extractAllIds (datas d))
           | None \<Rightarrow> True) \<and>
          (case p_subtasks taskData of
             None \<Rightarrow> True
           | Some arr \<Rightarrow>
               distinct (extractAllIds arr) \<and>
               set (extractAllIds arr) \<inter> set (extractAllIds (datas d)) = {} \<and>
               (case p_id taskData of
                  Some k \<Rightarrow> k
                | None \<Rightarrow> generateTaskId (extractAllIds (datas d))) \<notin> set (extractAllIds arr)) \<longrightarrow>
          storedUnique u (snd (addTask u taskData parentId now w))) \<and>
         (p_id updates = None \<and> p_subtasks updates = None \<longrightarrow>
          storedUnique u (snd (editTask u taskIds updates recursive w))) \<and>
         ((case p_id updates of
             Some k \<Rightarrow> k = taskId \<or> k \<notin> set (extractAllIds (datas d))
           | None \<Rightarrow> True) \<and>
          (case p_subtasks updates of
             None \<Rightarrow> True
           | Some arr \<Rightarrow>
               distinct (extractAllIds arr) \<and>
               set (extractAllIds arr) \<inter> set (extractAllIds (datas d)) = {} \<and>
               (case p_id updates of Some k \<Rightarrow> k | None \<Rightarrow> taskId) \<notin> set (extractAllIds arr)) \<longrightarrow>
          storedUnique u (snd (editTask u [taskId] updates False w))) \<and>
         storedUnique u (snd (deleteTask u taskIds w)) \<and>
         storedUnique u (snd (incrementTask u taskIds recursive w)) \<and>
         storedUnique u (snd (completeTask u taskIds recursive w)) \<and>
         (ancestorsFirst (datas d) taskIds \<longrightarrow>
          storedUnique u (snd (moveTask u taskIds newParentId w)))"
proof -
  have su: "storedUnique u w"
    using uniq by (simp add: storedUnique_stored [OF stored])
  have add: "(case p_id taskData of
                Some k \<Rightarrow> k \<notin> set (extractAllIds (datas d))
              | None \<Rightarrow> True) \<and>
             (case p_subtasks taskData of
                None \<Rightarrow> True
              | Some arr \<Rightarrow>
                  distinct (extractAllIds arr) \<and>
                  set (extractAllIds arr) \<inter> set (extractAllIds (datas d)) = {} \<and>
                  (case p_id taskData of
                     Some k \<Rightarrow> k
                   | None \<Rightarrow> generateTaskId (extractAllIds (datas d))) \<notin> set (extractAllIds arr)) \<longrightarrow>
             storedUnique u (snd (addTask u taskData parentId now w))"
    using addTask_unique [OF stored uniq] by blast
  have edit: "p_id updates = None \<and> p_subtasks updates = None \<longrightarrow>
              storedUnique u (snd (editTask u taskIds updates recursive w))"
    using editTask_unique [OF su] by blast
  have rename: "(case p_id updates of
                   Some k \<Rightarrow> k = taskId \<or> k \<notin> set (extractAllIds (datas d))
                 | None \<Rightarrow> True) \<and>
                (case p_subtasks updates of
                   None \<Rightarrow> True
                 | Some arr \<Rightarrow>
                     distinct (extractAllIds arr) \<and>
                     set (extractAllIds arr) \<inter> set (extractAllIds (datas d)) = {} \<and>
                     (case p_id updates of Some k \<Rightarrow> k | None \<Rightarrow> taskId)
                       \<notin> set (extractAllIds arr)) \<longrightarrow>
                storedUnique u (snd (editTask u [taskId] updates False w))"
    using editTask_one_unique [OF stored uniq] by blast
  have move: "ancestorsFirst (datas d) taskIds \<longrightarrow>
              storedUnique u (snd (moveTask u taskIds newParentId w))"
    using moveTask_unique [OF stored uniq] by blast
  show ?thesis
    by (intro conjI add edit rename deleteTask_unique [OF su] incrementTask_unique [OF su]
          completeTask_unique [OF su] move)
qed

lemmas tree_defs = storedWorld_def freshWorld_def oneTaskFile_def task1File_def nestedFile_def
  oneTask_def noFields_def loadStorage_def parseStorage_def toJson_def saveStorage_def mutated_def
  findTaskById_Cons modifyTaskById_Cons subs_def validateState_def DEFAULT_TASK_STATES_def
  objectAssign_def Let_def extractAllIds_def storedUnique_def setSubtasks_def pushSubtask_def
  removeTask_def splice1_def removeFromSubtasks.simps

theorem id_uniqueness_preserved_witness:
  "distinct (extractAllIds (datas nestedFile)) \<and>
   storedUnique ''u'' (snd (addTask ''u''
        (noFields\<lparr>p_id := Some 7, p_name := Some ''N'', p_subtasks := Some [oneTask 8 ''todo'']\<rparr>)
        (Some 1) ''02/01/2024'' (storedWorld ''u'' nestedFile))) \<and>
   storedUnique ''u'' (snd (editTask ''u'' [1, 3] (noFields\<lparr>p_name := Some ''N''\<rparr>) True
                              (storedWorld ''u'' nestedFile))) \<and>
   storedUnique ''u'' (snd (editTask ''u'' [2]
        (noFields\<lparr>p_id := Some 9, p_subtasks := Some [oneTask 10 ''todo'']\<rparr>) False
        (storedWorld ''u'' nestedFile))) \<and>
   storedUnique ''u'' (snd (moveTask ''u'' [1, 2] 3 (storedWorld ''u'' nestedFile)))"
proof -
  let ?new = "noFields\<lparr>p_id := Some 7, p_name := Some ''N'', p_subtasks := Some [oneTask 8 ''todo'']\<rparr>"
  let ?upd = "noFields\<lparr>p_id := Some 9, p_subtasks := Some [oneTask 10 ''todo'']\<rparr>"
  have stored: "tasksFile (storedWorld ''u'' nestedFile) ''u'' = Some (toJson nestedFile)"
    by simp
  have uniq: "distinct (extractAllIds (datas nestedFile))"
    by (simp add: nestedFile_def oneTask_def extractAllIds_def)
  have free: "(case p_id ?new of
                 Some k \<Rightarrow> k \<notin> set (extractAllIds (datas nestedFile))
               | None \<Rightarrow> True) \<and>
              (case p_subtasks ?new of
                 None \<Rightarrow> True
               | Some arr \<Rightarrow>
                   distinct (extractAllIds arr) \<and>
                   set (extractAllIds arr) \<inter> set (extractAllIds (datas nestedFile)) = {} \<and>
                   (case p_id ?new of
                      Some k \<Rightarrow> k
                    | None \<Rightarrow> generateTaskId (extractAllIds (datas nestedFile)))
                     \<notin> set (extractAllIds arr))"
    by (simp add: nestedFile_def oneTask_def extractAllIds_def)
  have noid: "p_id (noFields\<lparr>p_name := Some ''N''\<rparr>) = None \<and>
              p_subtasks (noFields\<lparr>p_name := Some ''N''\<rparr>) = None"
    by (simp add: noFields_def)
  have key: "(case p_id ?upd of
                Some k \<Rightarrow> k = 2 \<or> k \<notin> set (extractAllIds (datas nestedFile))
              | None \<Rightarrow> True) \<and>
             (case p_subtasks ?upd of
                None \<Rightarrow> True
              | Some arr \<Rightarrow>
                  distinct (extractAllIds arr) \<and>
                  set (extractAllIds arr) \<inter> set (extractAllIds (datas nestedFile)) = {} \<and>
                  (case p_id ?upd of Some k \<Rightarrow> k | None \<Rightarrow> 2) \<notin> set (extractAllIds arr))"
    by (simp add: nestedFile_def oneTask_def extractAllIds_def)
  have leaves: "ancestorsFirst (datas nestedFile) [1, 2]"
    by (simp add: nestedFile_def oneTask_def findTaskById_Cons subs_def subtreeIds_def)
  note a = id_uniqueness_preserved [OF stored uniq,
      where taskData = ?new and parentId = "Some 1" and now = "''02/01/2024''"
        and updates = "noFields\<lparr>p_name := Some ''N''\<rparr>" and taskIds = "[1, 3]"
        and recursive = True and taskId = 2 and newParentId = 0]
  note b = id_uniqueness_preserved [OF stored uniq,
      where taskData = noFields and parentId = None and now = "''02/01/2024''"
        and updates = ?upd and taskIds = "[1, 2]"
        and recursive = False and taskId = 2 and newParentId = 3]
  from a free noid uniq b key leaves show ?thesis by blast
qed

text \<open>
  Calls on forests with unique ids that leave duplicates in the stored forest:
  \<open>addTask\<close> with an explicit id that is in use; \<open>addTask\<close> without an id whose
  \<^verbatim>\<open>subtasks\<close> array holds the id that the allocator gives the new node; \<open>editTask\<close> with
  an \<^verbatim>\<open>id\<close> key that names another node; \<open>editTask\<close> with a \<^verbatim>\<open>subtasks\<close> array that holds
  the id of the node edited; and \<open>moveTask\<close> of a child and then its parent in one batch
  (the parent's copy, taken from the forest loaded before the loop, still holds the
  child).
\<close>

theorem id_uniqueness_counterexample:
  "distinct (extractAllIds (datas task1File)) \<and>
   \<not> storedUnique ''u'' (snd (addTask ''u'' (noFields\<lparr>p_id := Some 1, p_name := Some ''X''\<rparr>) None
                                 ''02/01/2024'' (storedWorld ''u'' task1File))) \<and>
   \<not> storedUnique ''u'' (snd (addTask ''u''
         (noFields\<lparr>p_name := Some ''X'', p_subtasks := Some [oneTask 0 ''todo'']\<rparr>) None
         ''02/01/2024'' (storedWorld ''u'' task1File))) \<and>
   distinct (extractAllIds (datas nestedFile)) \<and>
   \<not> storedUnique ''u'' (snd (editTask ''u'' [2] (noFields\<lparr>p_id := Some 3\<rparr>) False
                                 (storedWorld ''u'' nestedFile))) \<and>
   \<not> storedUnique ''u'' (snd (editTask ''u'' [3] (noFields\<lparr>p_subtasks := Some [oneTask 3 ''todo'']\<rparr>)
                                 False (storedWorld ''u'' nestedFile))) \<and>
   \<not> ancestorsFirst (datas nestedFile) [1, 0] \<and>
   \<not> storedUnique ''u'' (snd (moveTask ''u'' [1, 0] 3 (storedWorld ''u'' nestedFile)))"
proof -
  have a: "distinct (extractAllIds (datas task1File))"
    by (simp add: task1File_def oneTask_def extractAllIds_def)
  have b: "\<not> storedUnique ''u'' (snd (addTask ''u'' (noFields\<lparr>p_id := Some 1, p_name := Some ''X''\<rparr>) None
                                 ''02/01/2024'' (storedWorld ''u'' task1File)))"
    by (simp add: add_defs storedUnique_def)
  have b': "\<not> storedUnique ''u'' (snd (addTask ''u''
         (noFields\<lparr>p_name := Some ''X'', p_subtasks := Some [oneTask 0 ''todo'']\<rparr>) None
         ''02/01/2024'' (storedWorld ''u'' task1File)))"
    by (simp add: add_defs storedUnique_def)
  have c: "distinct (extractAllIds (datas nestedFile))"
    by (simp add: nestedFile_def oneTask_def extractAllIds_def)
  have d: "\<not> storedUnique ''u'' (snd (editTask ''u'' [2] (noFields\<lparr>p_id := Some 3\<rparr>) False
                                 (storedWorld ''u'' nestedFile)))"
    by (simp add: eval_defs nestedFile_def storedUnique_def extractAllIds_def setSubtasks_def)
  have d': "\<not> storedUnique ''u'' (snd (editTask ''u'' [3]
                 (noFields\<lparr>p_subtasks := Some [oneTask 3 ''todo'']\<rparr>) False
                 (storedWorld ''u'' nestedFile)))"
    by (simp add: eval_defs nestedFile_def storedUnique_def extractAllIds_def setSubtasks_def
          findPath.simps)
  have e: "\<not> storedUnique ''u'' (snd (moveTask ''u'' [1, 0] 3 (storedWorld ''u'' nestedFile)))"
    by (simp add: tree_defs moveTask_def deleteTask_def)
  have e': "\<not> ancestorsFirst (datas nestedFile) [1, 0]"
    by (simp add: nestedFile_def oneTask_def findTaskById_Cons subs_def subtreeIds_def)
  from a b b' c d d' e e' show ?thesis by blast
qed

end
